theory Spec2Isabelle
  imports Complex_Main "HOL-Library.Word"
begin

unbundle bit_operations_syntax

section \<open>TfStage: the base class of the TensorFlow Lite post-processing stages\<close>

text \<open>
  A shallow embedding of \<^verbatim>\<open>post_processing_stages/tf_stage.cpp\<close>. Member names lose the
  trailing underscore of the C++ (\<^verbatim>\<open>tf_w_\<close> is \<open>tf_w\<close>). C++ \<^verbatim>\<open>int\<close> values are HOL
  integers; the theorems that depend on a product staying inside the 32-bit range say so in a
  hypothesis, since signed overflow has no defined behaviour in the source.
\<close>

subsection \<open>C++ arithmetic\<close>

type_synonym u8 = "8 word"

text \<open>Integer division of C++ truncates towards zero.\<close>

definition c_div :: "int \<Rightarrow> int \<Rightarrow> int" where
  "c_div a b = (if (a < 0) = (b < 0) then \<bar>a\<bar> div \<bar>b\<bar> else - (\<bar>a\<bar> div \<bar>b\<bar>))"

text \<open>The conversion of a non-negative or negative \<^verbatim>\<open>int\<close> to the 64-bit \<^verbatim>\<open>size_t\<close>.\<close>

definition size_t_of :: "int \<Rightarrow> nat" where
  "size_t_of i = nat (i mod 2 ^ 64)"

text \<open>
  A \<^verbatim>\<open>double\<close> is modelled by the real number it denotes. Every floating-point operation is
  the exact operation followed by a rounding \<open>rd\<close>, which is a parameter of the model: no
  property below depends on which rounding it is, beyond leaving the two exactly representable
  values 0 and 128 unchanged where that is stated. The conversion of a \<^verbatim>\<open>double\<close> to
  \<^verbatim>\<open>int\<close> (the argument of \<^verbatim>\<open>std::clamp<int>\<close>) discards the fractional part.
\<close>

definition double_to_int :: "real \<Rightarrow> int" where
  "double_to_int d = (if d < 0 then \<lceil>d\<rceil> else \<lfloor>d\<rfloor>)"

text \<open>\<^verbatim>\<open>std::clamp(v, lo, hi)\<close>.\<close>

definition clamp_int :: "int \<Rightarrow> int \<Rightarrow> int \<Rightarrow> int" where
  "clamp_int v lo hi = (if v < lo then lo else if hi < v then hi else v)"

subsection \<open>Data model\<close>

datatype error = runtime_error string

datatype tflite_type = kTfLiteUInt8 | kTfLiteFloat32 | kTfLiteOtherType

text \<open>The input tensor of the interpreter, as \<^verbatim>\<open>typed_tensor<uint8_t>\<close> or \<^verbatim>\<open>typed_tensor<float>\<close>.\<close>

datatype tensor_data = U8Tensor "u8 list" | F32Tensor "real list"

datatype mutex = future_mutex | output_mutex

text \<open>
  What a run does besides changing the members: console lines, lock operations, calls into
  TensorFlow Lite and into the hooks of the subclass, in the order they happen.
\<close>

datatype event =
    Cout string
  | CoutSize string int int
  | Lock mutex
  | Unlock mutex
  | SetNumThreads int
  | CallInvoke
  | CallInterpretOutputs
  | CallApplyResults "32 word"
  | CallCheckConfiguration
  | CallReadExtras
  | AsyncLaunch "32 word"

text \<open>
  A task started by \<^verbatim>\<open>std::async\<close>: the frame it was launched on, and whether it still runs.
  \<^verbatim>\<open>wait_for(seconds(0))\<close> answers \<^verbatim>\<open>ready\<close> exactly for a completed task.
\<close>

datatype task_status = Running | Completed

datatype task = Task (frame_seq: "32 word") (status: task_status)

type_synonym stream = nat

record tf_config =
  number_of_threads :: int
  refresh_rate :: int
  model_file :: string
  verbose :: int
  normalisation_offset :: real
  normalisation_scale :: real

text \<open>
  The members of a stage, followed by the two parts of its surroundings that the code acts on:
  \<open>tasks\<close>, every task launched so far in launch order (\<open>future\<close> holds the index of the
  task its \<^verbatim>\<open>std::future\<close> refers to), and \<open>trace\<close>. \<open>results\<close> stands for the state of the
  subclass that \<^verbatim>\<open>interpretOutputs\<close> writes and \<^verbatim>\<open>applyResults\<close> reads.
\<close>

record 'r tf_stage =
  tf_w :: int
  tf_h :: int
  config :: tf_config
  tensor_type :: tflite_type
  tensor_bytes :: nat
  input_tensor :: tensor_data
  lores_stream :: "stream option"
  lores_w :: int
  lores_h :: int
  lores_stride :: int
  main_stream :: "stream option"
  main_w :: int
  main_h :: int
  main_stride :: int
  tensor_input :: "u8 list"
  future :: "nat option"
  results :: 'r
  tasks :: "task list"
  trace :: "event list"

text \<open>
  A completed request: its sequence number (\<^verbatim>\<open>unsigned int\<close>), the mapped memory of the
  buffer of each stream (bytes at offsets from the start of plane 0), and whatever
  \<^verbatim>\<open>applyResults\<close> attaches.
\<close>

record 'm completed_request =
  sequence :: "32 word"
  buffers :: "stream \<Rightarrow> int \<Rightarrow> u8"
  annotation :: 'm

text \<open>What the application reports about its streams.\<close>

record app =
  LoresStream :: "stream option"
  GetMainStream :: "stream option"
  StreamDimensions :: "stream \<Rightarrow> int \<times> int \<times> int"

text \<open>The property tree handed to \<open>Read\<close>: a typed lookup per key.\<close>

record ptree =
  get_int :: "string \<Rightarrow> int option"
  get_string :: "string \<Rightarrow> string option"
  get_float :: "string \<Rightarrow> real option"

text \<open>
  What TensorFlow Lite makes of a model file: whether the interpreter can be built and its
  tensors allocated, and the element type and byte size of input tensor 0.
\<close>

record tflite_model =
  interpreter_builds :: bool
  tensors_allocate :: bool
  model_input_type :: tflite_type
  model_input_bytes :: nat

text \<open>
  The collaborators of the running stage: the two roundings (\<^verbatim>\<open>double\<close> and \<^verbatim>\<open>float\<close>),
  the forward pass (\<open>None\<close> when \<^verbatim>\<open>Invoke()\<close> does not return \<^verbatim>\<open>kTfLiteOk\<close>), and the hooks
  \<^verbatim>\<open>interpretOutputs\<close> and \<^verbatim>\<open>applyResults\<close> of the subclass.
\<close>

record ('o, 'r, 'm) collab =
  rd64 :: "real \<Rightarrow> real"
  rd32 :: "real \<Rightarrow> real"
  Invoke :: "tensor_data \<Rightarrow> 'o option"
  interpretOutputs :: "'o \<Rightarrow> 'r \<Rightarrow> 'r"
  applyResults :: "'r \<Rightarrow> 'm completed_request \<Rightarrow> 'm completed_request"

definition emit :: "event list \<Rightarrow> 'r tf_stage \<Rightarrow> 'r tf_stage" where
  "emit evs s = s\<lparr>trace := trace s @ evs\<rparr>"

subsection \<open>Construction, \<open>Read\<close> and \<open>initialise\<close>\<close>

text \<open>
  The constructor. The members it leaves uninitialised start at 0 or null here; \<open>Read\<close> and
  \<open>Configure\<close> set them before anything reads them. \<open>r0\<close> is the initial state of the subclass.
\<close>

definition TfStage :: "'r \<Rightarrow> int \<Rightarrow> int \<Rightarrow> error + 'r tf_stage" where
  "TfStage r0 w h =
     (if w \<le> 0 \<or> h \<le> 0 then Inl (runtime_error ''TfStage: Bad TFLite input dimensions'')
      else Inr \<lparr>tf_w = w, tf_h = h,
        config = \<lparr>number_of_threads = 0, refresh_rate = 0, model_file = [], verbose = 0,
                   normalisation_offset = 0, normalisation_scale = 0\<rparr>,
        tensor_type = kTfLiteOtherType, tensor_bytes = 0, input_tensor = U8Tensor [],
        lores_stream = None, lores_w = 0, lores_h = 0, lores_stride = 0,
        main_stream = None, main_w = 0, main_h = 0, main_stride = 0,
        tensor_input = [], future = None, results = r0, tasks = [], trace = []\<rparr>)"

definition initialise :: "(string \<Rightarrow> tflite_model option) \<Rightarrow> 'r tf_stage \<Rightarrow> error + 'r tf_stage" where
  "initialise tflite s =
     (case tflite (model_file (config s)) of
        None \<Rightarrow> Inl (runtime_error ''TfStage: Failed to load model'')
      | Some m \<Rightarrow>
          let s1 = emit [Cout (''TfStage: Loaded model '' @ model_file (config s))] s in
          if \<not> interpreter_builds m then
            Inl (runtime_error ''TfStage: Failed to construct interpreter'')
          else
            let s2 = (if number_of_threads (config s1) \<noteq> - 1
                      then emit [SetNumThreads (number_of_threads (config s1))] s1 else s1) in
            if \<not> tensors_allocate m then
              Inl (runtime_error ''TfStage: Failed to allocate tensors'')
            else
              let s3 = s2\<lparr>tensor_type := model_input_type m, tensor_bytes := model_input_bytes m\<rparr>;
                  size = tensor_bytes s3;
                  check = size_t_of (tf_w s3 * tf_h s3 * 3)
              in
              if tensor_type s3 = kTfLiteUInt8 then
                (if (check * 1) mod 2 ^ 64 \<noteq> size
                 then Inl (runtime_error ''TfStage: Input tensor size mismatch'') else Inr s3)
              else if tensor_type s3 = kTfLiteFloat32 then
                (if (check * 4) mod 2 ^ 64 \<noteq> size
                 then Inl (runtime_error ''TfStage: Input tensor size mismatch'') else Inr s3)
              else Inl (runtime_error ''TfStage: Input tensor data type not supported''))"

definition get_or :: "('k \<Rightarrow> 'v option) \<Rightarrow> 'k \<Rightarrow> 'v \<Rightarrow> 'v" where
  "get_or lookup key dflt = (case lookup key of None \<Rightarrow> dflt | Some v \<Rightarrow> v)"

definition read_config :: "ptree \<Rightarrow> tf_config" where
  "read_config params =
     \<lparr>number_of_threads = get_or (get_int params) ''number_of_threads'' 2,
      refresh_rate = get_or (get_int params) ''refresh_rate'' 5,
      model_file = get_or (get_string params) ''model_file'' [],
      verbose = get_or (get_int params) ''verbose'' 0,
      normalisation_offset = get_or (get_float params) ''normalisation_offset'' 127.5,
      normalisation_scale = get_or (get_float params) ''normalisation_scale'' 127.5\<rparr>"

text \<open>The hook \<^verbatim>\<open>readExtras\<close> of the subclass is a parameter; it may raise.\<close>

definition Read ::
  "(string \<Rightarrow> tflite_model option) \<Rightarrow> (ptree \<Rightarrow> 'r tf_stage \<Rightarrow> error + 'r tf_stage) \<Rightarrow> ptree
     \<Rightarrow> 'r tf_stage \<Rightarrow> error + 'r tf_stage" where
  "Read tflite readExtras params s =
     (case initialise tflite (s\<lparr>config := read_config params\<rparr>) of
        Inl e \<Rightarrow> Inl e
      | Inr s2 \<Rightarrow> readExtras params (emit [CallReadExtras] s2))"

subsection \<open>\<open>Configure\<close>\<close>

text \<open>
  The two halves of \<open>Configure\<close>: the low-resolution stream, then the main stream. The hook
  \<^verbatim>\<open>checkConfiguration\<close> of the subclass is a parameter; it may raise. \<open>Configure\<close> returns
  what the hook returns, together with the stage as configured.
\<close>

definition configure_lores :: "app \<Rightarrow> 'r tf_stage \<Rightarrow> 'r tf_stage" where
  "configure_lores ap s =
     (let s1 = s\<lparr>lores_w := 0, lores_h := 0, lores_stride := 0, lores_stream := LoresStream ap\<rparr>
      in case lores_stream s1 of
           Some st \<Rightarrow>
             (case StreamDimensions ap st of (w, h, stride) \<Rightarrow>
                let a = s1\<lparr>lores_w := w, lores_h := h, lores_stride := stride\<rparr>;
                    b = (if verbose (config a) \<noteq> 0
                         then emit [CoutSize ''TfStage: Low resolution stream is ''
                                      (lores_w a) (lores_h a)] a
                         else a)
                in if tf_w b > lores_w b \<or> tf_h b > lores_h b
                   then (emit [Cout ''TfStage: WARNING: Low resolution image too small''] b)
                          \<lparr>lores_stream := None\<rparr>
                   else b)
         | None \<Rightarrow>
             (if verbose (config s1) \<noteq> 0
              then emit [Cout ''TfStage: no low resolution stream''] s1 else s1))"

definition configure_main :: "app \<Rightarrow> 'r tf_stage \<Rightarrow> 'r tf_stage" where
  "configure_main ap s =
     (let s1 = s\<lparr>main_w := 0, main_h := 0, main_stride := 0, main_stream := GetMainStream ap\<rparr>
      in case main_stream s1 of
           Some st \<Rightarrow>
             (case StreamDimensions ap st of (w, h, stride) \<Rightarrow>
                let a = s1\<lparr>main_w := w, main_h := h, main_stride := stride\<rparr>
                in if verbose (config a) \<noteq> 0
                   then emit [CoutSize ''TfStage: Main stream is '' (main_w a) (main_h a)] a
                   else a)
         | None \<Rightarrow>
             (if verbose (config s1) \<noteq> 0
              then emit [Cout ''TfStage: No main stream''] s1 else s1))"

definition Configure ::
  "app \<Rightarrow> ('r tf_stage \<Rightarrow> error option) \<Rightarrow> 'r tf_stage \<Rightarrow> error option \<times> 'r tf_stage" where
  "Configure ap checkConfiguration s =
     (let s1 = configure_lores ap s;
          s2 = configure_main ap s1;
          s3 = emit [CallCheckConfiguration] s2
      in (checkConfiguration s3, s3))"

subsection \<open>\<open>yuvToRgb\<close>\<close>

definition chan_R :: "(real \<Rightarrow> real) \<Rightarrow> int \<Rightarrow> int \<Rightarrow> int \<Rightarrow> int" where
  "chan_R rd Y U V =
     clamp_int (double_to_int (rd (of_int Y + rd (rd 1.402 * of_int (V - 128))))) 0 255"

definition chan_G :: "(real \<Rightarrow> real) \<Rightarrow> int \<Rightarrow> int \<Rightarrow> int \<Rightarrow> int" where
  "chan_G rd Y U V =
     clamp_int (double_to_int
       (rd (rd (of_int Y - rd (rd 0.345 * of_int (U - 128))) - rd (rd 0.714 * of_int (V - 128)))))
       0 255"

definition chan_B :: "(real \<Rightarrow> real) \<Rightarrow> int \<Rightarrow> int \<Rightarrow> int \<Rightarrow> int" where
  "chan_B rd Y U V =
     clamp_int (double_to_int (rd (of_int Y + rd (rd 1.771 * of_int (U - 128))))) 0 255"

definition off_x :: "'r tf_stage \<Rightarrow> int" where
  "off_x s = c_div (lores_w s - tf_w s) 2 AND NOT 1"

definition off_y :: "'r tf_stage \<Rightarrow> int" where
  "off_y s = c_div (lores_h s - tf_h s) 2 AND NOT 1"

text \<open>
  The inner loop over \<open>x\<close>. \<open>src\<close> is the memory the pointer argument points into, addressed
  by offset; \<open>src_Y\<close>, \<open>src_U\<close>, \<open>src_V\<close> and \<open>dst\<close> are the running pointers, as offsets.
  A list update beyond the end of the list changes nothing, where the source would write
  outside the vector; \<open>yuv_row_spec\<close> and \<open>yuv_rows_spec\<close> below show that all writes of
  \<open>yuvToRgb\<close> fall inside it.
\<close>

function yuv_row ::
  "(real \<Rightarrow> real) \<Rightarrow> int \<Rightarrow> (int \<Rightarrow> u8) \<Rightarrow> int \<Rightarrow> int \<Rightarrow> int \<Rightarrow> int \<Rightarrow> nat \<Rightarrow> u8 list
     \<Rightarrow> nat \<times> u8 list" where
  "yuv_row rd w src x src_Y src_U src_V dst output =
     (if x < w then
        let Y = uint (src src_Y);
            U = uint (src src_U);
            V = uint (src src_V);
            output1 = output[dst := word_of_int (chan_R rd Y U V)];
            output2 = output1[dst + 1 := word_of_int (chan_G rd Y U V)];
            output3 = output2[dst + 2 := word_of_int (chan_B rd Y U V)]
        in yuv_row rd w src (x + 1) (src_Y + 1) (src_U + (x AND 1)) (src_V + (x AND 1))
             (dst + 3) output3
      else (dst, output))"
  by pat_completeness auto
termination
  by (relation "measure (\<lambda>(rd, w, src, x, src_Y, src_U, src_V, dst, output). nat (w - x))") auto

declare yuv_row.simps [simp del]

text \<open>The outer loop over \<open>y\<close>.\<close>

function yuv_rows ::
  "(real \<Rightarrow> real) \<Rightarrow> 'r tf_stage \<Rightarrow> (int \<Rightarrow> u8) \<Rightarrow> int \<Rightarrow> nat \<Rightarrow> u8 list \<Rightarrow> u8 list" where
  "yuv_rows rd s src y dst output =
     (if y < tf_h s then
        let src_size = lores_h s * lores_stride s;
            src_U_size = c_div (lores_h s) 2 * c_div (lores_stride s) 2;
            src_Y = (y + off_y s) * lores_stride s + off_x s;
            src_U = src_size + c_div (y + off_y s) 2 * c_div (lores_stride s) 2 + c_div (off_x s) 2;
            src_V = src_U + src_U_size;
            (dst', output') = yuv_row rd (tf_w s) src 0 src_Y src_U src_V dst output
        in yuv_rows rd s src (y + 1) dst' output'
      else output)"
  by pat_completeness auto
termination
  by (relation "measure (\<lambda>(rd, s, src, y, dst, output). nat (tf_h s - y))") auto

declare yuv_rows.simps [simp del]

definition yuvToRgb :: "(real \<Rightarrow> real) \<Rightarrow> 'r tf_stage \<Rightarrow> (int \<Rightarrow> u8) \<Rightarrow> u8 list" where
  "yuvToRgb rd s src = yuv_rows rd s src 0 0 (replicate (size_t_of (tf_h s * tf_w s * 3)) 0)"

text \<open>
  The three bytes of one output pixel, and the pixel of the crop at row \<open>y\<close>, column \<open>x\<close>
  without the loops: the source offsets are written out in closed form. The loops are shown to
  compute exactly these pixels.
\<close>

definition rgb_bytes :: "(real \<Rightarrow> real) \<Rightarrow> int \<Rightarrow> int \<Rightarrow> int \<Rightarrow> u8 list" where
  "rgb_bytes rd Y U V =
     [word_of_int (chan_R rd Y U V), word_of_int (chan_G rd Y U V), word_of_int (chan_B rd Y U V)]"

definition crop_pixel :: "(real \<Rightarrow> real) \<Rightarrow> 'r tf_stage \<Rightarrow> (int \<Rightarrow> u8) \<Rightarrow> int \<Rightarrow> int \<Rightarrow> u8 list" where
  "crop_pixel rd s src y x =
     (let iY = (y + off_y s) * lores_stride s + off_x s + x;
          iU = lores_h s * lores_stride s
                 + c_div (y + off_y s) 2 * c_div (lores_stride s) 2 + c_div (off_x s) 2 + x div 2;
          iV = iU + c_div (lores_h s) 2 * c_div (lores_stride s) 2
      in rgb_bytes rd (uint (src iY)) (uint (src iU)) (uint (src iV)))"

definition crop_image :: "(real \<Rightarrow> real) \<Rightarrow> 'r tf_stage \<Rightarrow> (int \<Rightarrow> u8) \<Rightarrow> u8 list" where
  "crop_image rd s src =
     concat (map (\<lambda>y. concat (map (crop_pixel rd s src y) [0..tf_w s - 1])) [0..tf_h s - 1])"

subsection \<open>\<open>runInference\<close>\<close>

text \<open>
  The result is the exception raised, if any, and the stage as the call leaves it. The copy
  loops overwrite the first \<open>length tensor_input\<close> elements of the input tensor and leave the
  rest of it as it was (\<open>write_prefix\<close>). The buffer holds elements of the type that
  \<open>tensor_type\<close> names; a buffer of the other kind is read as empty. Where \<open>tensor_input\<close> is
  longer than the buffer the source writes outside it, and the model lets the buffer grow.
\<close>

definition normalise :: "(real \<Rightarrow> real) \<Rightarrow> tf_config \<Rightarrow> u8 \<Rightarrow> real" where
  "normalise rf c b = rf (rf (of_nat (unat b) - normalisation_offset c) / normalisation_scale c)"

definition write_prefix :: "'a list \<Rightarrow> 'a list \<Rightarrow> 'a list" where
  "write_prefix xs buffer = xs @ drop (length xs) buffer"

definition u8_buffer :: "tensor_data \<Rightarrow> u8 list" where
  "u8_buffer t = (case t of U8Tensor b \<Rightarrow> b | F32Tensor b \<Rightarrow> [])"

definition f32_buffer :: "tensor_data \<Rightarrow> real list" where
  "f32_buffer t = (case t of F32Tensor b \<Rightarrow> b | U8Tensor b \<Rightarrow> [])"

definition fill_input_tensor :: "('o, 'r, 'm) collab \<Rightarrow> 'r tf_stage \<Rightarrow> 'r tf_stage" where
  "fill_input_tensor C s =
     (if tensor_type s = kTfLiteUInt8 then
        s\<lparr>input_tensor :=
            U8Tensor (write_prefix (tensor_input s) (u8_buffer (input_tensor s)))\<rparr>
      else if tensor_type s = kTfLiteFloat32 then
        s\<lparr>input_tensor :=
            F32Tensor (write_prefix (map (normalise (rd32 C) (config s)) (tensor_input s))
                         (f32_buffer (input_tensor s)))\<rparr>
      else s)"

definition runInference :: "('o, 'r, 'm) collab \<Rightarrow> 'r tf_stage \<Rightarrow> (error + unit) \<times> 'r tf_stage" where
  "runInference C s =
     (let s1 = fill_input_tensor C s;
          s2 = emit [CallInvoke] s1
      in case Invoke C (input_tensor s2) of
           None \<Rightarrow> (Inl (runtime_error ''TfStage: Failed to invoke TFLite''), s2)
         | Some outputs \<Rightarrow>
             let s3 = emit [Lock output_mutex, CallInterpretOutputs] s2;
                 s4 = s3\<lparr>results := interpretOutputs C outputs (results s3)\<rparr>
             in (Inr (), emit [Unlock output_mutex] s4))"

subsection \<open>\<open>Process\<close>\<close>

text \<open>
  The condition of the \<^verbatim>\<open>if\<close> inside the block that holds \<^verbatim>\<open>future_mutex_\<close>. The operands of
  \<^verbatim>\<open>%\<close> are an \<^verbatim>\<open>unsigned int\<close> and an \<^verbatim>\<open>int\<close>, so the remainder is taken on 32-bit unsigned
  values.
\<close>

definition future_ready :: "'r tf_stage \<Rightarrow> nat \<Rightarrow> bool" where
  "future_ready s h \<longleftrightarrow> h < length (tasks s) \<and> status (tasks s ! h) = Completed"

definition launch_due :: "'r tf_stage \<Rightarrow> 32 word \<Rightarrow> bool" where
  "launch_due s sq \<longleftrightarrow>
     refresh_rate (config s) \<noteq> 0 \<and>
     sq mod word_of_int (refresh_rate (config s)) = 0 \<and>
     (case future s of None \<Rightarrow> True | Some h \<Rightarrow> future_ready s h)"

text \<open>The body of that \<^verbatim>\<open>if\<close>: convert the frame, then start the task and keep its future.\<close>

definition launch ::
  "('o, 'r, 'm) collab \<Rightarrow> stream \<Rightarrow> 'm completed_request \<Rightarrow> 'r tf_stage \<Rightarrow> 'r tf_stage" where
  "launch C st req s =
     (let buffer = buffers req st;
          s1 = s\<lparr>tensor_input := yuvToRgb (rd64 C) s buffer\<rparr>;
          s2 = s1\<lparr>future := Some (length (tasks s1)),
                  tasks := tasks s1 @ [Task (sequence req) Running]\<rparr>
      in emit [AsyncLaunch (sequence req)] s2)"

text \<open>The two statements after the block: \<^verbatim>\<open>applyResults\<close> under \<^verbatim>\<open>output_mutex_\<close>.\<close>

definition attach ::
  "('o, 'r, 'm) collab \<Rightarrow> 'm completed_request \<Rightarrow> 'r tf_stage
     \<Rightarrow> 'r tf_stage \<times> 'm completed_request" where
  "attach C req s =
     (let s1 = emit [Lock output_mutex, CallApplyResults (sequence req)] s;
          req' = applyResults C (results s1) req
      in (emit [Unlock output_mutex] s1, req'))"

text \<open>
  One call of \<open>Process\<close> that runs from entry to return with nothing else scheduled in between.
  It yields the return value, the stage and the request as the call leaves them.
\<close>

definition Process ::
  "('o, 'r, 'm) collab \<Rightarrow> 'r tf_stage \<Rightarrow> 'm completed_request
     \<Rightarrow> bool \<times> 'r tf_stage \<times> 'm completed_request" where
  "Process C s req =
     (case lores_stream s of
        None \<Rightarrow> (False, s, req)
      | Some st \<Rightarrow>
          let s1 = emit [Lock future_mutex] s;
              s2 = (if launch_due s1 (sequence req) then launch C st req s1 else s1);
              s3 = emit [Unlock future_mutex] s2;
              (s4, req') = attach C req s3
          in (False, s4, req'))"

text \<open>Frames delivered one after another to the same stage.\<close>

fun Process_frames ::
  "('o, 'r, 'm) collab \<Rightarrow> 'r tf_stage \<Rightarrow> 'm completed_request list \<Rightarrow> 'r tf_stage" where
  "Process_frames C s [] = s"
| "Process_frames C s (req # reqs) = Process_frames C (fst (snd (Process C s req))) reqs"

subsection \<open>Interleavings of frame threads, inference tasks and \<open>Stop\<close>\<close>

text \<open>
  Calls of \<open>Process\<close> may arrive on any number of threads while tasks run and \<open>Stop\<close> is
  called. A thread inside \<open>Process\<close> is at one of these points: waiting for
  \<^verbatim>\<open>future_mutex_\<close>; holding it, before the \<^verbatim>\<open>if\<close>; holding it with the condition found
  true, before the conversion and \<^verbatim>\<open>std::async\<close>; holding it at the end of the block; or
  before the \<^verbatim>\<open>applyResults\<close> statement.
\<close>

type_synonym tid = nat

datatype 'm pc =
    Idle
  | WantFutureMutex "'m completed_request"
  | InCritical "'m completed_request"
  | Launching "'m completed_request"
  | Unlocking "'m completed_request"
  | WantOutputMutex "'m completed_request"

text \<open>
  \<open>Stop\<close>: not called, blocked in \<^verbatim>\<open>future_->wait()\<close> on the future it read, or returned. On
  entry \<open>Stop\<close> tests \<open>future\<close>: it returns at once when it is null and waits on it otherwise.
\<close>

datatype stop_pc = NotStopping | StopWaiting nat | Stopped

definition Stop :: "'r tf_stage \<Rightarrow> stop_pc" where
  "Stop s = (case future s of None \<Rightarrow> Stopped | Some h \<Rightarrow> StopWaiting h)"

record ('r, 'm) system =
  stage :: "'r tf_stage"
  future_mutex_holder :: "tid option"
  pcs :: "tid \<Rightarrow> 'm pc"
  stop :: stop_pc

text \<open>
  The atomic steps. \<open>Call\<close> enters \<open>Process\<close> and passes the test of \<open>lores_stream\<close>;
  \<open>Acquire\<close> takes \<^verbatim>\<open>future_mutex_\<close>; \<open>Decide\<close> evaluates the condition; \<open>Launch\<close> is the body
  of the \<^verbatim>\<open>if\<close>; \<open>Release\<close> leaves the block; \<open>Attach\<close> runs \<^verbatim>\<open>applyResults\<close> under
  \<^verbatim>\<open>output_mutex_\<close> and returns. \<open>Finish i\<close> is task \<open>i\<close> running \<open>runInference\<close> to its end:
  nothing else reads or writes \<open>tensor_input\<close> and the input tensor while a task runs, and
  the results are written under \<^verbatim>\<open>output_mutex_\<close>, so its effect on the stage is that of one
  step. \<open>StopCall\<close> reads \<open>future\<close> (without a lock, as the source does) and \<open>StopReturn\<close> is
  the return of \<^verbatim>\<open>wait()\<close>, possible only once that task has completed.
\<close>

datatype 'm action =
    Call tid "'m completed_request"
  | Acquire tid
  | Decide tid
  | Launch tid
  | Release tid
  | Attach tid
  | Finish nat
  | StopCall
  | StopReturn

definition set_pc :: "tid \<Rightarrow> 'm pc \<Rightarrow> ('r, 'm) system \<Rightarrow> ('r, 'm) system" where
  "set_pc t p sy = sy\<lparr>pcs := (pcs sy)(t := p)\<rparr>"

definition complete :: "nat \<Rightarrow> 'r tf_stage \<Rightarrow> 'r tf_stage" where
  "complete i s = s\<lparr>tasks := (tasks s)[i := Task (frame_seq (tasks s ! i)) Completed]\<rparr>"

text \<open>
  The task: \<open>runInference\<close>, then the timing line when \<open>verbose\<close> is set; an exception of
  \<open>runInference\<close> ends the task without the line and is stored in the future, which nothing
  reads.
\<close>

definition task_body :: "('o, 'r, 'm) collab \<Rightarrow> 'r tf_stage \<Rightarrow> 'r tf_stage" where
  "task_body C s =
     (case runInference C s of
        (Inl e, s') \<Rightarrow> s'
      | (Inr u, s') \<Rightarrow>
          if verbose (config s') \<noteq> 0 then emit [Cout ''TfStage: Inference time''] s' else s')"

fun step :: "('o, 'r, 'm) collab \<Rightarrow> 'm action \<Rightarrow> ('r, 'm) system \<Rightarrow> ('r, 'm) system option" where
  "step C (Call t req) sy =
     (case pcs sy t of
        Idle \<Rightarrow>
          (case lores_stream (stage sy) of
             None \<Rightarrow> Some sy
           | Some st \<Rightarrow> Some (set_pc t (WantFutureMutex req) sy))
      | _ \<Rightarrow> None)"
| "step C (Acquire t) sy =
     (case pcs sy t of
        WantFutureMutex req \<Rightarrow>
          (if future_mutex_holder sy = None
           then Some (set_pc t (InCritical req)
                  (sy\<lparr>stage := emit [Lock future_mutex] (stage sy),
                      future_mutex_holder := Some t\<rparr>))
           else None)
      | _ \<Rightarrow> None)"
| "step C (Decide t) sy =
     (case pcs sy t of
        InCritical req \<Rightarrow>
          Some (set_pc t (if launch_due (stage sy) (sequence req)
                          then Launching req else Unlocking req) sy)
      | _ \<Rightarrow> None)"
| "step C (Launch t) sy =
     (case pcs sy t of
        Launching req \<Rightarrow>
          (case lores_stream (stage sy) of
             None \<Rightarrow> None
           | Some st \<Rightarrow> Some (set_pc t (Unlocking req) (sy\<lparr>stage := launch C st req (stage sy)\<rparr>)))
      | _ \<Rightarrow> None)"
| "step C (Release t) sy =
     (case pcs sy t of
        Unlocking req \<Rightarrow>
          Some (set_pc t (WantOutputMutex req)
            (sy\<lparr>stage := emit [Unlock future_mutex] (stage sy), future_mutex_holder := None\<rparr>))
      | _ \<Rightarrow> None)"
| "step C (Attach t) sy =
     (case pcs sy t of
        WantOutputMutex req \<Rightarrow>
          Some (set_pc t Idle (sy\<lparr>stage := fst (attach C req (stage sy))\<rparr>))
      | _ \<Rightarrow> None)"
| "step C (Finish i) sy =
     (if i < length (tasks (stage sy)) \<and> status (tasks (stage sy) ! i) = Running
      then Some (sy\<lparr>stage := complete i (task_body C (stage sy))\<rparr>)
      else None)"
| "step C StopCall sy =
     (if stop sy = NotStopping
      then Some (sy\<lparr>stop := Stop (stage sy)\<rparr>)
      else None)"
| "step C StopReturn sy =
     (case stop sy of
        StopWaiting h \<Rightarrow> (if future_ready (stage sy) h then Some (sy\<lparr>stop := Stopped\<rparr>) else None)
      | _ \<Rightarrow> None)"

text \<open>A schedule is a list of steps; it runs as far as each step is possible.\<close>

fun run ::
  "('o, 'r, 'm) collab \<Rightarrow> 'm action list \<Rightarrow> ('r, 'm) system \<Rightarrow> ('r, 'm) system option" where
  "run C [] sy = Some sy"
| "run C (a # as) sy = (case step C a sy of None \<Rightarrow> None | Some sy' \<Rightarrow> run C as sy')"

text \<open>The system when frame delivery starts: no thread inside \<open>Process\<close>, no lock held.\<close>

definition boot :: "'r tf_stage \<Rightarrow> ('r, 'm) system" where
  "boot s = \<lparr>stage = s, future_mutex_holder = None, pcs = (\<lambda>t. Idle), stop = NotStopping\<rparr>"

definition running_tasks :: "'r tf_stage \<Rightarrow> task list" where
  "running_tasks s = filter (\<lambda>k. status k = Running) (tasks s)"

definition is_launch :: "'m action \<Rightarrow> bool" where
  "is_launch a = (case a of Launch t \<Rightarrow> True | _ \<Rightarrow> False)"

subsection \<open>Invariants of the interleaved system\<close>

text \<open>
  The thread at one of the three points between \<open>Acquire\<close> and \<open>Release\<close> holds the lock. A
  frame passes the rate gate when \<open>refresh_rate\<close> is not zero and the remainder is zero.
  \<open>tasks_inv\<close>: a running task is the one \<open>future\<close> refers to, \<open>future\<close> refers to a task
  that exists and is set once a task exists, and every task was launched on a frame that passes
  the rate gate. \<open>sched_inv\<close> adds that only the holder of the lock is inside the block and
  that the condition still holds for a thread about to launch. \<open>stop_inv n slot\<close> relates a
  call of \<open>Stop\<close> that found \<open>n\<close> tasks and read \<open>slot\<close> from \<open>future\<close> to the later states.
\<close>

definition holds_lock :: "'m pc \<Rightarrow> bool" where
  "holds_lock p = (case p of InCritical req \<Rightarrow> True | Launching req \<Rightarrow> True
                   | Unlocking req \<Rightarrow> True | _ \<Rightarrow> False)"

definition rate_ok :: "'r tf_stage \<Rightarrow> 32 word \<Rightarrow> bool" where
  "rate_ok s sq \<longleftrightarrow> refresh_rate (config s) \<noteq> 0 \<and> sq mod word_of_int (refresh_rate (config s)) = 0"

definition tasks_inv :: "'r tf_stage \<Rightarrow> bool" where
  "tasks_inv s \<longleftrightarrow>
     (\<forall>i. i < length (tasks s) \<and> status (tasks s ! i) = Running \<longrightarrow> future s = Some i)
   \<and> (\<forall>h. future s = Some h \<longrightarrow> h < length (tasks s))
   \<and> (tasks s \<noteq> [] \<longrightarrow> future s \<noteq> None)
   \<and> (\<forall>k \<in> set (tasks s). rate_ok s (frame_seq k))"

definition sched_inv :: "('r, 'm) system \<Rightarrow> bool" where
  "sched_inv sy \<longleftrightarrow>
     (\<forall>t. holds_lock (pcs sy t) \<longrightarrow> future_mutex_holder sy = Some t)
   \<and> (\<forall>t req. pcs sy t = Launching req \<longrightarrow> launch_due (stage sy) (sequence req))
   \<and> tasks_inv (stage sy)"


subsection \<open>Example values\<close>

text \<open>
  A stage with a 2x2 model input on an 8x6 low-resolution stream, collaborators whose forward
  pass always succeeds and whose results count the inferences, and a mid-grey frame.
\<close>

definition demo_stage :: "nat tf_stage" where
  "demo_stage =
     \<lparr>tf_w = 2, tf_h = 2,
      config = \<lparr>number_of_threads = 2, refresh_rate = 5, model_file = ''model.tflite'',
                 verbose = 0, normalisation_offset = 127.5, normalisation_scale = 127.5\<rparr>,
      tensor_type = kTfLiteUInt8, tensor_bytes = 12, input_tensor = U8Tensor (replicate 12 0),
      lores_stream = Some 1, lores_w = 8, lores_h = 6, lores_stride = 8,
      main_stream = Some 0, main_w = 16, main_h = 12, main_stride = 16,
      tensor_input = [], future = None, results = 0, tasks = [], trace = []\<rparr>"

definition demo_collab :: "(nat, nat, nat) collab" where
  "demo_collab =
     \<lparr>rd64 = (\<lambda>x. x), rd32 = (\<lambda>x. x), Invoke = (\<lambda>t. Some 1),
      interpretOutputs = (\<lambda>outputs r. r + outputs),
      applyResults = (\<lambda>r req. req\<lparr>annotation := r\<rparr>)\<rparr>"

definition demo_request :: "32 word \<Rightarrow> nat completed_request" where
  "demo_request sq = \<lparr>sequence = sq, buffers = (\<lambda>st a. 128), annotation = 0\<rparr>"

definition demo_model :: tflite_model where
  "demo_model = \<lparr>interpreter_builds = True, tensors_allocate = True,
                  model_input_type = kTfLiteUInt8, model_input_bytes = 150528\<rparr>"

definition demo_app :: app where
  "demo_app = \<lparr>LoresStream = Some 1, GetMainStream = Some 0,
                StreamDimensions = (\<lambda>st. if st = 1 then (1, 6, 8) else (16, 12, 16))\<rparr>"

text \<open>
  A schedule in which thread 0 launches on frame 0 and returns, and thread 1 enters the block
  with frame 5 while that task still runs; the schedule up to the return of thread 0; a
  schedule in which \<open>Stop\<close> is called after thread 1 has found the condition true for frame 5
  and before it launches; the demo stage with the low-resolution path disabled; and the demo
  stage holding a completed task.
\<close>

definition demo_schedule :: "nat action list" where
  "demo_schedule =
     [Call 0 (demo_request 0), Acquire 0, Decide 0, Launch 0, Release 0, Attach 0,
      Call 1 (demo_request 5), Acquire 1]"



definition demo_disabled :: "nat tf_stage" where
  "demo_disabled = demo_stage\<lparr>lores_stream := None, results := 7\<rparr>"

definition demo_ready :: "nat tf_stage" where
  "demo_ready = demo_stage\<lparr>future := Some 0, tasks := [Task 0 Completed]\<rparr>"

section \<open>Properties\<close>

subsection \<open>Lemmas on the conversion loops\<close>

lemma length_yuv_row [simp]:
  "length (snd (yuv_row rd w src x pY pU pV dst out)) = length out"
  by (induction rd w src x pY pU pV dst out rule: yuv_row.induct)
     (subst yuv_row.simps, simp add: Let_def)

lemma length_yuv_rows [simp]: "length (yuv_rows rd s src y dst out) = length out"
proof (induction rd s src y dst out rule: yuv_rows.induct)
  case (1 rd s src y dst out)
  show ?case
  proof (cases "y < tf_h s")
    case True
    obtain d' o' where r: "yuv_row rd (tf_w s) src 0
        ((y + off_y s) * lores_stride s + off_x s)
        (lores_h s * lores_stride s + c_div (y + off_y s) 2 * c_div (lores_stride s) 2 + c_div (off_x s) 2)
        (lores_h s * lores_stride s + c_div (y + off_y s) 2 * c_div (lores_stride s) 2 + c_div (off_x s) 2
           + c_div (lores_h s) 2 * c_div (lores_stride s) 2) dst out = (d', o')"
      by fastforce
    from r have len: "length o' = length out"
      using length_yuv_row by (metis snd_conv)
    show ?thesis
      using True r len "1.IH"[OF True refl refl refl refl refl r[symmetric] refl]
      by (subst yuv_rows.simps) (simp add: Let_def)
  next
    case False
    then show ?thesis by (subst yuv_rows.simps) simp
  qed
qed

lemma length_rgb_bytes [simp]: "length (rgb_bytes rd Y U V) = 3"
  by (simp add: rgb_bytes_def)

lemma update3:
  "dst + 3 \<le> length xs \<Longrightarrow>
   xs[dst := a, dst + 1 := b, dst + 2 := c] = take dst xs @ [a, b, c] @ drop (dst + 3) xs"
  by (rule nth_equalityI) (auto simp: nth_append nth_list_update nth_Cons' split: if_splits)

lemma yuv_row_spec:
  "0 \<le> x \<Longrightarrow> x \<le> w \<Longrightarrow> dst + 3 * nat (w - x) \<le> length out \<Longrightarrow>
   yuv_row rd w src x pY pU pV dst out =
     (dst + 3 * nat (w - x),
      take dst out
      @ concat (map (\<lambda>i. rgb_bytes rd (uint (src (pY + (i - x))))
                                      (uint (src (pU + (i div 2 - x div 2))))
                                      (uint (src (pV + (i div 2 - x div 2))))) [x..w - 1])
      @ drop (dst + 3 * nat (w - x)) out)"
proof (induction rd w src x pY pU pV dst out rule: yuv_row.induct)
  case (1 rd w src x pY pU pV dst out)
  show ?case
  proof (cases "x < w")
    case False
    with "1.prems" have "x = w" by simp
    then show ?thesis by (subst yuv_row.simps) simp
  next
    case True
    let ?px = "rgb_bytes rd (uint (src pY)) (uint (src pU)) (uint (src pV))"
    let ?o3 = "take dst out @ ?px @ drop (dst + 3) out"
    have n: "nat (w - x) = Suc (nat (w - (x + 1)))" using True by simp
    have room: "dst + 3 \<le> length out" using "1.prems"(3) n by simp
    have upd: "out[dst := word_of_int (chan_R rd (uint (src pY)) (uint (src pU)) (uint (src pV))),
                 dst + 1 := word_of_int (chan_G rd (uint (src pY)) (uint (src pU)) (uint (src pV))),
                 dst + 2 := word_of_int (chan_B rd (uint (src pY)) (uint (src pU)) (uint (src pV)))] = ?o3"
      using update3[OF room] by (simp add: rgb_bytes_def)
    have len3: "length ?o3 = length out" using room by (simp add: rgb_bytes_def)
    have half: "(x + 1) div 2 = x div 2 + x mod 2" by presburger
    have tk: "take (dst + 3) ?o3 = take dst out @ ?px"
      using room by simp
    have dr: "drop (dst + 3 + 3 * nat (w - (x + 1))) ?o3 = drop (dst + 3 * nat (w - x)) out"
      using room n by (simp add: ac_simps)
    have half: "(x + 1) div 2 = x div 2 + x mod 2" by presburger
    have idx: "\<And>i. pY + 1 + (i - (x + 1)) = pY + (i - x)"
      "\<And>i. pU + (x AND 1) + (i div 2 - (x + 1) div 2) = pU + (i div 2 - x div 2)"
      "\<And>i. pV + (x AND 1) + (i div 2 - (x + 1) div 2) = pV + (i div 2 - x div 2)"
      by (simp_all add: and_one_eq half)
    have pre: "0 \<le> x + 1" "x + 1 \<le> w" "dst + 3 + 3 * nat (w - (x + 1)) \<le> length ?o3"
      using "1.prems" True n len3 by simp_all
    have IH: "yuv_row rd w src (x + 1) (pY + 1) (pU + (x AND 1)) (pV + (x AND 1)) (dst + 3) ?o3 =
       (dst + 3 * nat (w - x),
        (take dst out @ ?px)
        @ concat (map (\<lambda>i. rgb_bytes rd (uint (src (pY + (i - x))))
                     (uint (src (pU + (i div 2 - x div 2))))
                     (uint (src (pV + (i div 2 - x div 2))))) [x + 1..w - 1])
        @ drop (dst + 3 * nat (w - x)) out)"
      using "1.IH"[OF True refl refl refl refl refl refl, unfolded upd, OF pre]
      unfolding tk dr idx using n by simp
    have up: "[x..w - 1] = x # [x + 1..w - 1]" using True by (simp add: upto_rec1)
    have step: "yuv_row rd w src x pY pU pV dst out =
        yuv_row rd w src (x + 1) (pY + 1) (pU + (x AND 1)) (pV + (x AND 1)) (dst + 3) ?o3"
      using True upd by (subst yuv_row.simps) (simp add: Let_def)
    show ?thesis
      unfolding step IH up by simp
  qed
qed

lemma yuv_rows_spec:
  "0 \<le> y \<Longrightarrow> y \<le> tf_h s \<Longrightarrow> 0 \<le> tf_w s \<Longrightarrow>
   dst + 3 * nat (tf_w s) * nat (tf_h s - y) \<le> length out \<Longrightarrow>
   yuv_rows rd s src y dst out =
     take dst out
     @ concat (map (\<lambda>j. concat (map (crop_pixel rd s src j) [0..tf_w s - 1])) [y..tf_h s - 1])
     @ drop (dst + 3 * nat (tf_w s) * nat (tf_h s - y)) out"
proof (induction rd s src y dst out rule: yuv_rows.induct)
  case (1 rd s src y dst out)
  show ?case
  proof (cases "y < tf_h s")
    case False
    with "1.prems" have "y = tf_h s" by simp
    then show ?thesis by (subst yuv_rows.simps) simp
  next
    case True
    let ?pY = "(y + off_y s) * lores_stride s + off_x s"
    let ?pU = "lores_h s * lores_stride s + c_div (y + off_y s) 2 * c_div (lores_stride s) 2
                 + c_div (off_x s) 2"
    let ?pV = "?pU + c_div (lores_h s) 2 * c_div (lores_stride s) 2"
    let ?row = "concat (map (crop_pixel rd s src y) [0..tf_w s - 1])"
    let ?d' = "dst + 3 * nat (tf_w s)"
    let ?o' = "take dst out @ ?row @ drop ?d' out"
    have n: "nat (tf_h s - y) = Suc (nat (tf_h s - (y + 1)))" using True by simp
    have room: "?d' \<le> length out" using "1.prems"(4) n by simp
    have lrow: "length ?row = 3 * nat (tf_w s)"
      by (simp add: length_concat o_def crop_pixel_def Let_def sum_list_triv)
    have cp: "\<And>i. rgb_bytes rd (uint (src (?pY + (i - 0)))) (uint (src (?pU + (i div 2 - 0 div 2))))
                 (uint (src (?pV + (i div 2 - 0 div 2)))) = crop_pixel rd s src y i"
      by (simp add: crop_pixel_def Let_def ac_simps)
    have row: "yuv_row rd (tf_w s) src 0 ?pY ?pU ?pV dst out = (?d', ?o')"
      using yuv_row_spec[of 0 "tf_w s" dst out rd src ?pY ?pU ?pV] "1.prems"(3) room
      unfolding cp by simp
    have len': "length ?o' = length out" using room lrow by simp
    have pre: "0 \<le> y + 1" "y + 1 \<le> tf_h s"
       "?d' + 3 * nat (tf_w s) * nat (tf_h s - (y + 1)) \<le> length ?o'"
      using "1.prems" True n len' by (simp_all add: algebra_simps)
    have tk: "take ?d' ?o' = take dst out @ ?row" using room lrow by simp
    have dr: "drop (?d' + 3 * nat (tf_w s) * nat (tf_h s - (y + 1))) ?o'
                = drop (dst + 3 * nat (tf_w s) * nat (tf_h s - y)) out"
      using room lrow n by (simp add: algebra_simps)
    have IH: "yuv_rows rd s src (y + 1) ?d' ?o' =
        (take dst out @ ?row)
        @ concat (map (\<lambda>j. concat (map (crop_pixel rd s src j) [0..tf_w s - 1])) [y + 1..tf_h s - 1])
        @ drop (dst + 3 * nat (tf_w s) * nat (tf_h s - y)) out"
      using "1.IH"[OF True refl refl refl refl refl refl row[symmetric] pre(1,2) "1.prems"(3) pre(3)]
      unfolding tk dr by simp
    have up: "[y..tf_h s - 1] = y # [y + 1..tf_h s - 1]" using True by (simp add: upto_rec1)
    have step: "yuv_rows rd s src y dst out = yuv_rows rd s src (y + 1) ?d' ?o'"
      using True row by (subst yuv_rows.simps) (simp add: Let_def)
    show ?thesis unfolding step IH up by simp
  qed
qed


lemma and_not_1: "(a::int) AND NOT 1 = 2 * (a div 2)"
proof (rule bit_eqI)
  fix n
  have "bit (a AND NOT 1) n = (bit a n \<and> n \<noteq> 0)"
    unfolding bit_and_iff bit_not_iff by (simp add: bit_1_iff)
  also have "\<dots> = bit (2 * (a div 2)) n"
    by (cases n) (simp_all add: bit_double_iff bit_Suc)
  finally show "bit (a AND NOT 1) n = bit (2 * (a div 2)) n" .
qed

lemma c_div_nonneg: "0 \<le> a \<Longrightarrow> 0 < b \<Longrightarrow> c_div a b = a div b"
  by (simp add: c_div_def)

lemma yuvToRgb_crop_image:
  assumes "0 < tf_w s" "0 < tf_h s" "tf_h s * tf_w s * 3 < 2 ^ 31"
  shows "yuvToRgb rd s src = crop_image rd s src"
proof -
  let ?n = "size_t_of (tf_h s * tf_w s * 3)"
  have pos: "0 \<le> tf_h s * tf_w s * 3" using assms by simp
  have n: "?n = 3 * nat (tf_w s) * nat (tf_h s)"
  proof -
    have "tf_h s * tf_w s * 3 < 2 ^ 64" using assms(3) by simp
    then have "?n = nat (tf_h s * tf_w s * 3)" using pos by (simp add: size_t_of_def)
    also have "\<dots> = 3 * nat (tf_w s) * nat (tf_h s)"
      using assms(1,2) by (simp add: nat_mult_distrib mult.commute)
    finally show ?thesis .
  qed
  have "yuv_rows rd s src 0 0 (replicate ?n 0) =
      take 0 (replicate ?n 0)
      @ concat (map (\<lambda>j. concat (map (crop_pixel rd s src j) [0..tf_w s - 1])) [0..tf_h s - 1])
      @ drop (0 + 3 * nat (tf_w s) * nat (tf_h s - 0)) (replicate ?n 0)"
    by (rule yuv_rows_spec) (use assms n in simp_all)
  then show ?thesis by (simp add: yuvToRgb_def crop_image_def n)
qed

lemma clamp_int_range: "lo \<le> hi \<Longrightarrow> lo \<le> clamp_int v lo hi \<and> clamp_int v lo hi \<le> hi"
  by (simp add: clamp_int_def)

lemma uint_byte: "0 \<le> k \<Longrightarrow> k \<le> 255 \<Longrightarrow> uint (word_of_int k :: u8) = k"
  by (simp add: uint_word_of_int)

lemma chan_128:
  assumes "rd 0 = 0" "rd 128 = 128"
  shows "chan_R rd 128 128 128 = 128" "chan_G rd 128 128 128 = 128" "chan_B rd 128 128 128 = 128"
  using assms by (simp_all add: chan_R_def chan_G_def chan_B_def clamp_int_def double_to_int_def)

lemma length_crop_image:
  "0 \<le> tf_w s \<Longrightarrow> 0 \<le> tf_h s \<Longrightarrow> length (crop_image rd s src) = nat (tf_h s * tf_w s * 3)"
  by (simp add: crop_image_def length_concat o_def crop_pixel_def Let_def sum_list_triv
      nat_mult_distrib)

lemma crop_image_uniform:
  assumes "\<And>y x. crop_pixel rd s src y x = [v, v, v]" "0 \<le> tf_w s" "0 \<le> tf_h s"
  shows "crop_image rd s src = replicate (nat (tf_h s * tf_w s * 3)) v"
proof -
  have "set (crop_image rd s src) \<subseteq> {v}"
    using assms(1) by (auto simp: crop_image_def)
  then have "crop_image rd s src = replicate (length (crop_image rd s src)) v"
    by (simp add: replicate_length_same subset_iff)
  then show ?thesis using length_crop_image[OF assms(2,3)] by simp
qed


subsection \<open>The size of the converted image and the crop offsets\<close>

lemma take_drop_concat_uniform:
  assumes "\<And>x. x \<in> set xs \<Longrightarrow> length (f x) = m" and "i < length xs"
  shows "take m (drop (m * i) (concat (map f xs))) = f (xs ! i)"
  using assms
proof (induction xs arbitrary: i)
  case Nil
  then show ?case by simp
next
  case (Cons a xs)
  have la: "length (f a) = m" using Cons.prems(1) by simp
  show ?case
  proof (cases i)
    case 0
    then show ?thesis using la by simp
  next
    case (Suc j)
    have "drop (m * Suc j) (f a @ concat (map f xs)) = drop (m * j) (concat (map f xs))"
      using la by simp
    then show ?thesis using Cons.IH [of j] Cons.prems Suc by simp
  qed
qed

lemma length_crop_pixel [simp]: "length (crop_pixel rd s src y x) = 3"
  by (simp add: crop_pixel_def Let_def)

lemma crop_image_pixel:
  assumes "0 \<le> y" "y < tf_h s" "0 \<le> x" "x < tf_w s"
  shows "take 3 (drop (nat (3 * (y * tf_w s + x))) (crop_image rd s src)) = crop_pixel rd s src y x"
proof -
  let ?row = "\<lambda>j. concat (map (crop_pixel rd s src j) [0..tf_w s - 1])"
  let ?w = "nat (tf_w s)"
  have lrow: "length (?row j) = 3 * ?w" for j
    by (simp add: length_concat o_def sum_list_triv)
  have ny: "[0..tf_h s - 1] ! nat y = y" "nat y < length [0..tf_h s - 1]"
    using assms(1,2) by simp_all
  have nx: "[0..tf_w s - 1] ! nat x = x" "nat x < length [0..tf_w s - 1]"
    using assms(3,4) by simp_all
  let ?D = "drop (3 * ?w * nat y) (crop_image rd s src)"
  have row: "take (3 * ?w) ?D = ?row y"
    using take_drop_concat_uniform [of "[0..tf_h s - 1]" ?row "3 * ?w" "nat y"] lrow ny
    by (simp add: crop_image_def)
  have px: "take 3 (drop (3 * nat x) (?row y)) = crop_pixel rd s src y x"
    using take_drop_concat_uniform [of "[0..tf_w s - 1]" "crop_pixel rd s src y" 3 "nat x"] nx
    by simp
  have room: "3 \<le> 3 * ?w - 3 * nat x" using assms(3,4) by simp
  have "take 3 (drop (3 * nat x) (take (3 * ?w) ?D))
          = take 3 (take (3 * ?w - 3 * nat x) (drop (3 * nat x) ?D))"
    by (simp only: drop_take)
  also have "\<dots> = take 3 (drop (3 * nat x) ?D)"
    using room by (simp only: take_take min_absorb1)
  finally have "take 3 (drop (3 * nat x) (take (3 * ?w) ?D)) = take 3 (drop (3 * nat x) ?D)" .
  then have "take 3 (drop (3 * nat x) ?D) = crop_pixel rd s src y x"
    using row px by simp
  moreover have "nat (3 * (y * tf_w s + x)) = 3 * nat x + 3 * ?w * nat y"
    using assms by (simp add: nat_add_distrib nat_mult_distrib algebra_simps)
  ultimately show ?thesis by (simp add: add.commute)
qed

text \<open>
  C8. For a stage whose low-resolution stream is at least as large as the model input in both
  dimensions, \<open>yuvToRgb\<close> returns exactly \<open>tf_h * tf_w * 3\<close> bytes. The three bytes at output
  position \<open>3 * (y * tf_w + x)\<close> are the conversion of the luma byte at row \<open>y + off_y\<close>, column
  \<open>x + off_x\<close> of the source and of the chroma bytes at row \<open>(y + off_y) / 2\<close>, column
  \<open>off_x / 2 + x / 2\<close> of the two chroma planes: the crop that \<open>yuvToRgb\<close> reads starts at
  \<open>(off_x, off_y)\<close>. These offsets are \<open>((lores - tf) / 2) & ~1\<close> in each dimension: they are
  even, not negative, and the crop lies inside the source image. The model input dimensions
  are positive (the constructor rejects anything else) and the byte count fits an \<^verbatim>\<open>int\<close>.
\<close>

theorem yuvToRgb_size_and_crop_offsets:
  assumes "tf_w s \<le> lores_w s" and "tf_h s \<le> lores_h s"
    and "0 < tf_w s" and "0 < tf_h s" and "tf_h s * tf_w s * 3 < 2 ^ 31"
  shows "int (length (yuvToRgb rd s src)) = tf_h s * tf_w s * 3
       \<and> (\<forall>y x. 0 \<le> y \<and> y < tf_h s \<and> 0 \<le> x \<and> x < tf_w s \<longrightarrow>
             take 3 (drop (nat (3 * (y * tf_w s + x))) (yuvToRgb rd s src))
               = rgb_bytes rd
                   (uint (src ((y + off_y s) * lores_stride s + off_x s + x)))
                   (uint (src (lores_h s * lores_stride s
                                 + c_div (y + off_y s) 2 * c_div (lores_stride s) 2
                                 + c_div (off_x s) 2 + x div 2)))
                   (uint (src (lores_h s * lores_stride s
                                 + c_div (y + off_y s) 2 * c_div (lores_stride s) 2
                                 + c_div (off_x s) 2 + x div 2
                                 + c_div (lores_h s) 2 * c_div (lores_stride s) 2))))
       \<and> yuvToRgb rd s src = crop_image rd s src
       \<and> off_x s = (lores_w s - tf_w s) div 2 AND NOT 1
       \<and> off_y s = (lores_h s - tf_h s) div 2 AND NOT 1
       \<and> even (off_x s) \<and> even (off_y s)
       \<and> 0 \<le> off_x s \<and> off_x s + tf_w s \<le> lores_w s
       \<and> 0 \<le> off_y s \<and> off_y s + tf_h s \<le> lores_h s"
proof -
  have img: "yuvToRgb rd s src = crop_image rd s src"
    using assms(3,4,5) by (rule yuvToRgb_crop_image)
  have len: "int (length (yuvToRgb rd s src)) = tf_h s * tf_w s * 3"
    using assms(3,4,5) by (simp add: img length_crop_image)
  have px: "take 3 (drop (nat (3 * (y * tf_w s + x))) (yuvToRgb rd s src))
               = rgb_bytes rd
                   (uint (src ((y + off_y s) * lores_stride s + off_x s + x)))
                   (uint (src (lores_h s * lores_stride s
                                 + c_div (y + off_y s) 2 * c_div (lores_stride s) 2
                                 + c_div (off_x s) 2 + x div 2)))
                   (uint (src (lores_h s * lores_stride s
                                 + c_div (y + off_y s) 2 * c_div (lores_stride s) 2
                                 + c_div (off_x s) 2 + x div 2
                                 + c_div (lores_h s) 2 * c_div (lores_stride s) 2)))"
    if "0 \<le> y" "y < tf_h s" "0 \<le> x" "x < tf_w s" for y x
    unfolding img crop_image_pixel [OF that] by (simp add: crop_pixel_def Let_def)
  have ox: "off_x s = (lores_w s - tf_w s) div 2 AND NOT 1"
    using assms(1) unfolding off_x_def by (simp add: c_div_nonneg)
  have oy: "off_y s = (lores_h s - tf_h s) div 2 AND NOT 1"
    using assms(2) unfolding off_y_def by (simp add: c_div_nonneg)
  have ex: "even (off_x s)" and ey: "even (off_y s)"
    unfolding off_x_def off_y_def and_not_1 by simp_all
  have bx: "0 \<le> off_x s \<and> off_x s + tf_w s \<le> lores_w s"
    unfolding ox and_not_1 using assms(1) by presburger
  have by': "0 \<le> off_y s \<and> off_y s + tf_h s \<le> lores_h s"
    unfolding oy and_not_1 using assms(2) by presburger
  show ?thesis using len px img ox oy ex ey bx by' by blast
qed

lemma demo_stage_geometry:
  "tf_w demo_stage = 2" "tf_h demo_stage = 2"
  "lores_w demo_stage = 8" "lores_h demo_stage = 6" "lores_stride demo_stage = 8"
  by (simp_all add: demo_stage_def)

lemma demo_first_pixel:
  "rgb_bytes (\<lambda>x. x) 118 153 165 = [169, 82, 162]"
  by (simp add: rgb_bytes_def chan_R_def chan_G_def chan_B_def clamp_int_def double_to_int_def)

theorem yuvToRgb_size_and_crop_offsets_witness:
  "int (length (yuvToRgb (\<lambda>x. x) demo_stage (\<lambda>a. word_of_int (a + 100)))) = 12
     \<and> off_x demo_stage = 2 \<and> off_y demo_stage = 2
     \<and> take 3 (yuvToRgb (\<lambda>x. x) demo_stage (\<lambda>a. word_of_int (a + 100))) = [169, 82, 162]"
proof -
  have h: "tf_w demo_stage \<le> lores_w demo_stage" "tf_h demo_stage \<le> lores_h demo_stage"
    "0 < tf_w demo_stage" "0 < tf_h demo_stage" "tf_h demo_stage * tf_w demo_stage * 3 < 2 ^ 31"
    by (simp_all add: demo_stage_geometry)
  note main = yuvToRgb_size_and_crop_offsets [OF h, of "\<lambda>x. x" "\<lambda>a. word_of_int (a + 100)"]
  have len: "int (length (yuvToRgb (\<lambda>x. x) demo_stage (\<lambda>a. word_of_int (a + 100)))) = 12"
    using conjunct1 [OF main] by (simp add: demo_stage_geometry)
  from main have "off_x demo_stage = (lores_w demo_stage - tf_w demo_stage) div 2 AND NOT 1"
    and "off_y demo_stage = (lores_h demo_stage - tf_h demo_stage) div 2 AND NOT 1"
    by blast+
  then have ox: "off_x demo_stage = 2" and oy: "off_y demo_stage = 2"
    by (simp_all add: demo_stage_geometry)
  have "0 \<le> (0::int) \<and> 0 < tf_h demo_stage \<and> 0 \<le> (0::int) \<and> 0 < tf_w demo_stage"
    by (simp add: demo_stage_geometry)
  then have "take 3 (drop (nat (3 * (0 * tf_w demo_stage + 0)))
                 (yuvToRgb (\<lambda>x. x) demo_stage (\<lambda>a. word_of_int (a + 100))))
      = rgb_bytes (\<lambda>x. x)
          (uint (word_of_int ((0 + off_y demo_stage) * lores_stride demo_stage
                    + off_x demo_stage + 0 + 100) :: u8))
          (uint (word_of_int (lores_h demo_stage * lores_stride demo_stage
                    + c_div (0 + off_y demo_stage) 2 * c_div (lores_stride demo_stage) 2
                    + c_div (off_x demo_stage) 2 + 0 div 2 + 100) :: u8))
          (uint (word_of_int (lores_h demo_stage * lores_stride demo_stage
                    + c_div (0 + off_y demo_stage) 2 * c_div (lores_stride demo_stage) 2
                    + c_div (off_x demo_stage) 2 + 0 div 2
                    + c_div (lores_h demo_stage) 2 * c_div (lores_stride demo_stage) 2 + 100) :: u8))"
    using main by blast
  then have "take 3 (yuvToRgb (\<lambda>x. x) demo_stage (\<lambda>a. word_of_int (a + 100)))
      = rgb_bytes (\<lambda>x. x) 118 153 165"
    by (simp add: ox oy demo_stage_geometry c_div_def)
  then show ?thesis using len ox oy demo_first_pixel by simp
qed

subsection \<open>Clamped channels and the grey frame\<close>

text \<open>
  C9. The loops of \<open>yuvToRgb\<close> compute the image of the crop pixel by pixel; the three bytes
  stored for a pixel are the channel values themselves, each of them clamped to 0..255 (so no
  value wraps around when it is stored in a byte); and when every byte of the source is 128,
  the formulas give R = G = B = 128 and every byte of the output is 128. The last part holds
  for every rounding of \<^verbatim>\<open>double\<close> arithmetic that leaves 0 and 128 unchanged.
\<close>

theorem yuvToRgb_clamped_and_grey:
  assumes "0 < tf_w s" and "0 < tf_h s" and "tf_h s * tf_w s * 3 < 2 ^ 31"
  shows "yuvToRgb rd s src = crop_image rd s src
       \<and> (\<forall>Y U V. map uint (rgb_bytes rd Y U V) = [chan_R rd Y U V, chan_G rd Y U V, chan_B rd Y U V]
             \<and> 0 \<le> chan_R rd Y U V \<and> chan_R rd Y U V \<le> 255
             \<and> 0 \<le> chan_G rd Y U V \<and> chan_G rd Y U V \<le> 255
             \<and> 0 \<le> chan_B rd Y U V \<and> chan_B rd Y U V \<le> 255)
       \<and> (rd 0 = 0 \<and> rd 128 = 128 \<and> (\<forall>a. src a = 128) \<longrightarrow>
             chan_R rd 128 128 128 = 128 \<and> chan_G rd 128 128 128 = 128
             \<and> chan_B rd 128 128 128 = 128
             \<and> yuvToRgb rd s src = replicate (nat (tf_h s * tf_w s * 3)) 128)"
proof -
  have a: "yuvToRgb rd s src = crop_image rd s src"
    using assms by (rule yuvToRgb_crop_image)
  have r: "\<And>Y U V. 0 \<le> chan_R rd Y U V \<and> chan_R rd Y U V \<le> 255"
    and g: "\<And>Y U V. 0 \<le> chan_G rd Y U V \<and> chan_G rd Y U V \<le> 255"
    and b: "\<And>Y U V. 0 \<le> chan_B rd Y U V \<and> chan_B rd Y U V \<le> 255"
    unfolding chan_R_def chan_G_def chan_B_def by (rule clamp_int_range, simp)+
  have m: "\<And>Y U V. map uint (rgb_bytes rd Y U V)
             = [chan_R rd Y U V, chan_G rd Y U V, chan_B rd Y U V]"
    using r g b by (simp add: rgb_bytes_def uint_byte)
  have u: "yuvToRgb rd s src = replicate (nat (tf_h s * tf_w s * 3)) 128"
    if h: "rd 0 = 0" "rd 128 = 128" "\<forall>a. src a = 128"
  proof -
    have "\<And>y x. crop_pixel rd s src y x = [128, 128, 128]"
      using h(3) chan_128[OF h(1,2)] by (simp add: crop_pixel_def rgb_bytes_def)
    then have "crop_image rd s src = replicate (nat (tf_h s * tf_w s * 3)) 128"
      using assms(1,2) by (intro crop_image_uniform) simp_all
    then show ?thesis using a by simp
  qed
  show ?thesis using a r g b m u chan_128 by blast
qed

theorem yuvToRgb_clamped_and_grey_witness:
  "yuvToRgb (\<lambda>x. x) demo_stage (\<lambda>a. 128) = replicate 12 128
     \<and> map uint (rgb_bytes (\<lambda>x. x) 255 0 255) = [255, 208, 28]"
proof -
  have h: "0 < tf_w demo_stage" "0 < tf_h demo_stage" "tf_h demo_stage * tf_w demo_stage * 3 < 2 ^ 31"
    by (simp_all add: demo_stage_geometry)
  note t = yuvToRgb_clamped_and_grey [OF h, of "\<lambda>x. x" "\<lambda>a. 128"]
  have n: "nat (tf_h demo_stage * tf_w demo_stage * 3) = 12"
    by (simp add: demo_stage_geometry)
  have "yuvToRgb (\<lambda>x. x) demo_stage (\<lambda>a. 128)
          = replicate (nat (tf_h demo_stage * tf_w demo_stage * 3)) 128"
    using conjunct2 [OF conjunct2 [OF t]] by simp
  moreover have "map uint (rgb_bytes (\<lambda>x. x) 255 0 255)
          = [chan_R (\<lambda>x. x) 255 0 255, chan_G (\<lambda>x. x) 255 0 255, chan_B (\<lambda>x. x) 255 0 255]"
    using t by blast
  moreover have "chan_R (\<lambda>x. x) 255 0 255 = 255" "chan_G (\<lambda>x. x) 255 0 255 = 208"
    "chan_B (\<lambda>x. x) 255 0 255 = 28"
    by (simp_all add: chan_R_def chan_G_def chan_B_def clamp_int_def double_to_int_def)
  ultimately show ?thesis unfolding n by simp
qed


subsection \<open>Lemmas on the stage operations\<close>

lemma emit_fields [simp]:
  "tf_w (emit evs s) = tf_w s" "tf_h (emit evs s) = tf_h s" "config (emit evs s) = config s"
  "tensor_type (emit evs s) = tensor_type s" "tensor_bytes (emit evs s) = tensor_bytes s"
  "input_tensor (emit evs s) = input_tensor s" "lores_stream (emit evs s) = lores_stream s"
  "lores_w (emit evs s) = lores_w s" "lores_h (emit evs s) = lores_h s"
  "lores_stride (emit evs s) = lores_stride s" "tensor_input (emit evs s) = tensor_input s"
  "future (emit evs s) = future s" "results (emit evs s) = results s"
  "tasks (emit evs s) = tasks s" "trace (emit evs s) = trace s @ evs"
  by (simp_all add: emit_def)

lemma size_t_of_small: "0 \<le> i \<Longrightarrow> i < 2 ^ 31 \<Longrightarrow> size_t_of i = nat i"
  by (simp add: size_t_of_def)

lemma size_check:
  assumes "0 \<le> P" "P < 2 ^ 31" "k \<le> 4"
  shows "((size_t_of P * k) mod 2 ^ 64 \<noteq> n) = (int n \<noteq> P * int k)"
proof -
  have a: "size_t_of P = nat P" using assms(1,2) by (rule size_t_of_small)
  have lt: "nat P < 2 ^ 31" using assms(1,2) by (simp add: nat_less_iff)
  have "nat P * k \<le> nat P * 4" using assms(3) by simp
  also have "\<dots> < 2 ^ 31 * 4" using lt by simp
  finally have b: "(nat P * k) mod 2 ^ 64 = nat P * k" by simp
  have c: "int (nat P * k) = P * int k" using assms(1) by simp
  show ?thesis unfolding a b using c by (metis of_nat_eq_iff)
qed

lemma initialise_checks_size:
  assumes "0 < tf_w s" "0 < tf_h s" "tf_w s * tf_h s * 3 < 2 ^ 31"
    and "tflite (model_file (config s)) = Some m" "interpreter_builds m" "tensors_allocate m"
  shows "model_input_type m = kTfLiteUInt8 \<Longrightarrow> int (model_input_bytes m) \<noteq> tf_w s * tf_h s * 3 * 1 \<Longrightarrow>
           initialise tflite s = Inl (runtime_error ''TfStage: Input tensor size mismatch'')"
    and "model_input_type m = kTfLiteFloat32 \<Longrightarrow> int (model_input_bytes m) \<noteq> tf_w s * tf_h s * 3 * 4 \<Longrightarrow>
           initialise tflite s = Inl (runtime_error ''TfStage: Input tensor size mismatch'')"
proof -
  have pos: "0 \<le> tf_w s * tf_h s * 3" using assms(1,2) by simp
  note chk = size_check [OF pos assms(3)]
  show "model_input_type m = kTfLiteUInt8 \<Longrightarrow> int (model_input_bytes m) \<noteq> tf_w s * tf_h s * 3 * 1 \<Longrightarrow>
           initialise tflite s = Inl (runtime_error ''TfStage: Input tensor size mismatch'')"
    using assms(4-6) chk [of 1 "model_input_bytes m"]
    by (simp add: initialise_def Let_def)
  show "model_input_type m = kTfLiteFloat32 \<Longrightarrow> int (model_input_bytes m) \<noteq> tf_w s * tf_h s * 3 * 4 \<Longrightarrow>
           initialise tflite s = Inl (runtime_error ''TfStage: Input tensor size mismatch'')"
    using assms(4-6) chk [of 4 "model_input_bytes m"]
    by (simp add: initialise_def Let_def)
qed

lemma initialise_other:
  assumes "tflite (model_file (config s)) = Some m" "interpreter_builds m" "tensors_allocate m"
    and "model_input_type m = kTfLiteOtherType"
  shows "initialise tflite s = Inl (runtime_error ''TfStage: Input tensor data type not supported'')"
  using assms by (simp add: initialise_def Let_def)

lemma Read_propagates:
  "initialise tflite (s\<lparr>config := read_config params\<rparr>) = Inl e \<Longrightarrow>
   Read tflite readExtras params s = Inl e"
  by (simp add: Read_def)


subsection \<open>Validation of the input tensor at load time\<close>

text \<open>
  C5. When the model file loads, the interpreter is built and its tensors are allocated,
  \<open>initialise\<close> raises the error "Input tensor data type not supported" if the element type
  of the input tensor is neither \<^verbatim>\<open>kTfLiteUInt8\<close> nor \<^verbatim>\<open>kTfLiteFloat32\<close>, and the error "Input
  tensor size mismatch" if \<open>tf_w * tf_h * 3\<close> times the element size (1 or 4) differs from the
  byte size the model declares. \<open>Read\<close>, which calls \<open>initialise\<close> on the configuration it has
  just read, fails with the same error, so no stage exists whose frames could be processed.
  The model input dimensions are positive (the constructor rejects anything else) and
  \<open>tf_w * tf_h * 3\<close> fits an \<^verbatim>\<open>int\<close>.
\<close>

theorem initialise_input_tensor_errors:
  assumes "0 < tf_w s" and "0 < tf_h s" and "tf_w s * tf_h s * 3 < 2 ^ 31"
    and "tflite (model_file (config s)) = Some m"
    and "interpreter_builds m" and "tensors_allocate m"
  shows "(model_input_type m \<noteq> kTfLiteUInt8 \<and> model_input_type m \<noteq> kTfLiteFloat32 \<longrightarrow>
            initialise tflite s
              = Inl (runtime_error ''TfStage: Input tensor data type not supported''))
       \<and> (model_input_type m = kTfLiteUInt8
            \<and> int (model_input_bytes m) \<noteq> tf_w s * tf_h s * 3 * 1 \<longrightarrow>
            initialise tflite s = Inl (runtime_error ''TfStage: Input tensor size mismatch''))
       \<and> (model_input_type m = kTfLiteFloat32
            \<and> int (model_input_bytes m) \<noteq> tf_w s * tf_h s * 3 * 4 \<longrightarrow>
            initialise tflite s = Inl (runtime_error ''TfStage: Input tensor size mismatch''))
       \<and> (\<forall>e readExtras params s0.
            s = s0\<lparr>config := read_config params\<rparr> \<and> initialise tflite s = Inl e \<longrightarrow>
            Read tflite readExtras params s0 = Inl e)"
proof -
  have other: "model_input_type m \<noteq> kTfLiteUInt8 \<and> model_input_type m \<noteq> kTfLiteFloat32 \<longrightarrow>
      initialise tflite s = Inl (runtime_error ''TfStage: Input tensor data type not supported'')"
    using initialise_other [of tflite s m] assms(4-6) by (cases "model_input_type m") simp_all
  have u8: "model_input_type m = kTfLiteUInt8
            \<and> int (model_input_bytes m) \<noteq> tf_w s * tf_h s * 3 * 1 \<longrightarrow>
            initialise tflite s = Inl (runtime_error ''TfStage: Input tensor size mismatch'')"
    using initialise_checks_size(1) [of s tflite m] assms by blast
  have f32: "model_input_type m = kTfLiteFloat32
            \<and> int (model_input_bytes m) \<noteq> tf_w s * tf_h s * 3 * 4 \<longrightarrow>
            initialise tflite s = Inl (runtime_error ''TfStage: Input tensor size mismatch'')"
    using initialise_checks_size(2) [of s tflite m] assms by blast
  show ?thesis
    using other u8 f32 Read_propagates by blast
qed

theorem initialise_input_tensor_errors_witness:
  "initialise (\<lambda>f. Some demo_model) demo_stage
     = Inl (runtime_error ''TfStage: Input tensor size mismatch'')"
proof -
  have h: "0 < tf_w demo_stage" "0 < tf_h demo_stage" "tf_w demo_stage * tf_h demo_stage * 3 < 2 ^ 31"
    "interpreter_builds demo_model" "tensors_allocate demo_model"
    by (simp_all add: demo_stage_geometry demo_model_def)
  have "model_input_type demo_model = kTfLiteUInt8
      \<and> int (model_input_bytes demo_model) \<noteq> tf_w demo_stage * tf_h demo_stage * 3 * 1"
    by (simp add: demo_model_def demo_stage_geometry)
  then show ?thesis
    using initialise_input_tensor_errors [of demo_stage "\<lambda>f. Some demo_model" demo_model] h
    by simp
qed

subsection \<open>A low-resolution stream that is too small\<close>

lemma Process_disabled: "lores_stream s = None \<Longrightarrow> Process C s req = (False, s, req)"
  by (simp add: Process_def)

lemma Process_frames_disabled: "lores_stream s = None \<Longrightarrow> Process_frames C s reqs = s"
  by (induction reqs) (simp_all add: Process_disabled)

lemma configure_main_keeps:
  "lores_stream (configure_main ap s) = lores_stream s \<and> tasks (configure_main ap s) = tasks s
     \<and> future (configure_main ap s) = future s
     \<and> set (trace s) \<subseteq> set (trace (configure_main ap s))"
  by (cases "verbose (config s) = 0")
     (auto simp: configure_main_def Let_def split: option.splits prod.splits)

text \<open>
  C4. If the application has a low-resolution stream and it is smaller than the model input in
  either dimension, \<open>Configure\<close> prints the warning and clears \<open>lores_stream\<close>; it raises no
  error of its own (its outcome is that of the hook \<^verbatim>\<open>checkConfiguration\<close>) and launches
  nothing. From then on every call of \<open>Process\<close> returns \<open>False\<close> at once and leaves the stage
  and the request as they are, for any number of frames.
\<close>

theorem Configure_small_lores_disables_inference:
  assumes "LoresStream ap = Some st" and "StreamDimensions ap st = (w, h, stride)"
    and "tf_w s > w \<or> tf_h s > h" and "Configure ap checkConfiguration s = (r, s')"
  shows "lores_stream s' = None
       \<and> Cout ''TfStage: WARNING: Low resolution image too small'' \<in> set (trace s')
       \<and> r = checkConfiguration s'
       \<and> tasks s' = tasks s \<and> future s' = future s
       \<and> (\<forall>C req. Process C s' req = (False, s', req))
       \<and> (\<forall>C reqs. Process_frames C s' reqs = s')"
proof -
  let ?s1 = "configure_lores ap s"
  have s': "s' = emit [CallCheckConfiguration] (configure_main ap ?s1)"
    and r: "r = checkConfiguration s'"
    using assms(4) by (auto simp: Configure_def Let_def)
  have l1: "lores_stream ?s1 = None \<and> tasks ?s1 = tasks s \<and> future ?s1 = future s
      \<and> Cout ''TfStage: WARNING: Low resolution image too small'' \<in> set (trace ?s1)"
    using assms(1-3) by (cases "verbose (config s) = 0") (auto simp: configure_lores_def Let_def)
  have l: "lores_stream s' = None" and k: "tasks s' = tasks s" and f: "future s' = future s"
    and t: "Cout ''TfStage: WARNING: Low resolution image too small'' \<in> set (trace s')"
    using l1 configure_main_keeps [of ap ?s1] unfolding s' by auto
  show ?thesis using l t r k f Process_disabled [OF l] Process_frames_disabled [OF l] by blast
qed

theorem Configure_small_lores_disables_inference_witness:
  "lores_stream (snd (Configure demo_app (\<lambda>s. None) demo_stage)) = None
     \<and> fst (Configure demo_app (\<lambda>s. None) demo_stage) = None
     \<and> Process_frames demo_collab (snd (Configure demo_app (\<lambda>s. None) demo_stage))
          [demo_request 0, demo_request 5]
       = snd (Configure demo_app (\<lambda>s. None) demo_stage)"
proof -
  have h: "LoresStream demo_app = Some 1" "StreamDimensions demo_app 1 = (1, 6, 8)"
    "tf_w demo_stage > 1 \<or> tf_h demo_stage > 6"
    by (simp_all add: demo_app_def demo_stage_geometry)
  show ?thesis
    using Configure_small_lores_disables_inference [OF h surjective_pairing] by blast
qed

subsection \<open>A failed forward pass\<close>

text \<open>
  C6. When \<^verbatim>\<open>Invoke()\<close> fails, \<open>runInference\<close> raises "Failed to invoke TFLite" and leaves
  \<open>results\<close> as it was: after the call to \<^verbatim>\<open>Invoke\<close> the trace has no further event, so
  \<^verbatim>\<open>output_mutex_\<close> is not taken and \<^verbatim>\<open>interpretOutputs\<close> is not called. The same holds for the
  whole task and for its completion.
\<close>

theorem runInference_failure_keeps_results:
  assumes "Invoke C (input_tensor (fill_input_tensor C s)) = None"
  shows "fst (runInference C s) = Inl (runtime_error ''TfStage: Failed to invoke TFLite'')
       \<and> results (snd (runInference C s)) = results s
       \<and> trace (snd (runInference C s)) = trace s @ [CallInvoke]
       \<and> results (task_body C s) = results s
       \<and> results (complete i (task_body C s)) = results s"
proof -
  have f: "results (fill_input_tensor C s) = results s" "trace (fill_input_tensor C s) = trace s"
    by (simp_all add: fill_input_tensor_def)
  have r: "runInference C s
      = (Inl (runtime_error ''TfStage: Failed to invoke TFLite''),
         emit [CallInvoke] (fill_input_tensor C s))"
    using assms by (simp add: runInference_def Let_def)
  show ?thesis using f by (simp add: r task_body_def complete_def)
qed

theorem runInference_failure_keeps_results_witness:
  "fst (runInference (demo_collab\<lparr>Invoke := (\<lambda>t. None)\<rparr>) (demo_stage\<lparr>results := 7\<rparr>))
     = Inl (runtime_error ''TfStage: Failed to invoke TFLite'')
   \<and> results (snd (runInference (demo_collab\<lparr>Invoke := (\<lambda>t. None)\<rparr>) (demo_stage\<lparr>results := 7\<rparr>))) = 7"
proof -
  have h: "Invoke (demo_collab\<lparr>Invoke := (\<lambda>t. None)\<rparr>)
      (input_tensor (fill_input_tensor (demo_collab\<lparr>Invoke := (\<lambda>t. None)\<rparr>) (demo_stage\<lparr>results := 7\<rparr>)))
      = None" by simp
  show ?thesis
    using runInference_failure_keeps_results [OF h, of 0] by simp
qed


subsection \<open>Lemmas on the interleaved system\<close>

lemma launch_fields [simp]:
  "config (launch C st req s) = config s" "lores_stream (launch C st req s) = lores_stream s"
  "tasks (launch C st req s) = tasks s @ [Task (sequence req) Running]"
  "future (launch C st req s) = Some (length (tasks s))"
  "results (launch C st req s) = results s"
  "trace (launch C st req s) = trace s @ [AsyncLaunch (sequence req)]"
  by (simp_all add: launch_def Let_def emit_def)

lemma attach_fields [simp]:
  "config (fst (attach C req s)) = config s" "lores_stream (fst (attach C req s)) = lores_stream s"
  "tasks (fst (attach C req s)) = tasks s" "future (fst (attach C req s)) = future s"
  "results (fst (attach C req s)) = results s"
  "trace (fst (attach C req s))
     = trace s @ [Lock output_mutex, CallApplyResults (sequence req), Unlock output_mutex]"
  "snd (attach C req s) = applyResults C (results s) req"
  by (simp_all add: attach_def Let_def emit_def)

lemma fill_input_tensor_fields [simp]:
  "config (fill_input_tensor C s) = config s" "lores_stream (fill_input_tensor C s) = lores_stream s"
  "tasks (fill_input_tensor C s) = tasks s" "future (fill_input_tensor C s) = future s"
  "results (fill_input_tensor C s) = results s" "trace (fill_input_tensor C s) = trace s"
  by (simp_all add: fill_input_tensor_def)

lemma runInference_fields [simp]:
  "config (snd (runInference C s)) = config s" "lores_stream (snd (runInference C s)) = lores_stream s"
  "tasks (snd (runInference C s)) = tasks s" "future (snd (runInference C s)) = future s"
  by (simp_all add: runInference_def Let_def emit_def split: option.splits)

lemma task_body_fields [simp]:
  "config (task_body C s) = config s" "lores_stream (task_body C s) = lores_stream s"
  "tasks (task_body C s) = tasks s" "future (task_body C s) = future s"
proof -
  obtain r s' where rs: "runInference C s = (r, s')" by fastforce
  have k: "config s' = config s" "lores_stream s' = lores_stream s" "tasks s' = tasks s"
    "future s' = future s"
    using runInference_fields [of C s] unfolding rs by simp_all
  show "config (task_body C s) = config s" "lores_stream (task_body C s) = lores_stream s"
    "tasks (task_body C s) = tasks s" "future (task_body C s) = future s"
    using k by (cases r; simp add: task_body_def rs)+
qed

lemma complete_fields [simp]:
  "config (complete i s) = config s" "lores_stream (complete i s) = lores_stream s"
  "future (complete i s) = future s" "results (complete i s) = results s"
  "trace (complete i s) = trace s" "length (tasks (complete i s)) = length (tasks s)"
  "tasks (complete i s) = (tasks s)[i := Task (frame_seq (tasks s ! i)) Completed]"
  by (simp_all add: complete_def)

lemma set_pc_fields [simp]:
  "stage (set_pc t p sy) = stage sy" "future_mutex_holder (set_pc t p sy) = future_mutex_holder sy"
  "stop (set_pc t p sy) = stop sy" "pcs (set_pc t p sy) = (pcs sy)(t := p)"
  by (simp_all add: set_pc_def)

lemma launch_due_emit [simp]: "launch_due (emit evs s) sq = launch_due s sq"
  by (simp add: launch_due_def future_ready_def split: option.splits)

lemma future_ready_emit [simp]: "future_ready (emit evs s) h = future_ready s h"
  by (simp add: future_ready_def)

lemma launch_due_cong:
  "config s' = config s \<Longrightarrow> future s' = future s \<Longrightarrow>
   (\<And>h. future_ready s h \<Longrightarrow> future_ready s' h) \<Longrightarrow> launch_due s sq \<Longrightarrow> launch_due s' sq"
  by (auto simp: launch_due_def split: option.splits)

lemma future_ready_complete:
  "future_ready s h \<Longrightarrow> future_ready (complete i (task_body C s)) h"
  by (cases "i = h") (auto simp: future_ready_def)

lemma sched_inv_boot: "future s = None \<Longrightarrow> tasks s = [] \<Longrightarrow> sched_inv (boot s)"
  by (simp add: sched_inv_def tasks_inv_def boot_def holds_lock_def)

lemma tasks_invD:
  assumes "tasks_inv s"
  shows "i < length (tasks s) \<Longrightarrow> status (tasks s ! i) = Running \<Longrightarrow> future s = Some i"
    and "future s = Some h \<Longrightarrow> h < length (tasks s)"
    and "tasks s \<noteq> [] \<Longrightarrow> future s \<noteq> None"
    and "k \<in> set (tasks s) \<Longrightarrow> rate_ok s (frame_seq k)"
  using assms unfolding tasks_inv_def by blast+

lemma tasks_inv_cong:
  "config s' = config s \<Longrightarrow> future s' = future s \<Longrightarrow> tasks s' = tasks s \<Longrightarrow>
   tasks_inv s' = tasks_inv s"
  by (simp add: tasks_inv_def rate_ok_def)

lemma launch_due_same:
  "config s' = config s \<Longrightarrow> future s' = future s \<Longrightarrow> tasks s' = tasks s \<Longrightarrow>
   launch_due s' sq = launch_due s sq"
  by (simp add: launch_due_def future_ready_def split: option.splits)

lemma rate_ok_cong [simp]:
  "rate_ok (launch C st req s) sq = rate_ok s sq"
  "rate_ok (complete i (task_body C s)) sq = rate_ok s sq"
  by (simp_all add: rate_ok_def)

lemma launch_due_rate_ok: "launch_due s sq \<Longrightarrow> rate_ok s sq"
  by (simp add: launch_due_def rate_ok_def)

lemma tasks_inv_launch:
  assumes "tasks_inv s" and "launch_due s (sequence req)"
  shows "tasks_inv (launch C st req s)"
proof -
  have none_running: "\<And>i. i < length (tasks s) \<Longrightarrow> status (tasks s ! i) \<noteq> Running"
  proof
    fix i assume i: "i < length (tasks s)" and r: "status (tasks s ! i) = Running"
    then have "future s = Some i" by (rule tasks_invD(1) [OF assms(1)])
    then have "future_ready s i" using assms(2) by (simp add: launch_due_def)
    then show False using r by (simp add: future_ready_def)
  qed
  have rate: "rate_ok s (sequence req)" using assms(2) by (rule launch_due_rate_ok)
  have old: "\<forall>k \<in> set (tasks s). rate_ok s (frame_seq k)"
    using tasks_invD(4) [OF assms(1)] by blast
  show ?thesis
    unfolding tasks_inv_def
  proof (intro conjI allI impI ballI)
    fix i
    assume "i < length (tasks (launch C st req s))
              \<and> status (tasks (launch C st req s) ! i) = Running"
    then have "i = length (tasks s)"
      using none_running [of i] by (cases "i < length (tasks s)") (auto simp: nth_append)
    then show "future (launch C st req s) = Some i" by simp
  next
    fix h assume "future (launch C st req s) = Some h"
    then show "h < length (tasks (launch C st req s))" by auto
  next
    show "future (launch C st req s) \<noteq> None" by simp
  next
    fix k assume "k \<in> set (tasks (launch C st req s))"
    then show "rate_ok (launch C st req s) (frame_seq k)"
      using old rate by auto
  qed
qed

lemma tasks_inv_complete:
  assumes "tasks_inv s"
  shows "tasks_inv (complete i (task_body C s))"
  unfolding tasks_inv_def
proof (intro conjI allI impI ballI)
  fix j
  assume a: "j < length (tasks (complete i (task_body C s)))
               \<and> status (tasks (complete i (task_body C s)) ! j) = Running"
  then have "j \<noteq> i" by (auto simp: nth_list_update)
  then have "j < length (tasks s) \<and> status (tasks s ! j) = Running"
    using a by (simp add: nth_list_update)
  then show "future (complete i (task_body C s)) = Some j"
    using tasks_invD(1) [OF assms] by simp
next
  fix h assume "future (complete i (task_body C s)) = Some h"
  then show "h < length (tasks (complete i (task_body C s)))"
    using tasks_invD(2) [OF assms, of h] by simp
next
  assume "tasks (complete i (task_body C s)) \<noteq> []"
  then show "future (complete i (task_body C s)) \<noteq> None"
    using tasks_invD(3) [OF assms] by auto
next
  fix k assume "k \<in> set (tasks (complete i (task_body C s)))"
  then have "k \<in> set (tasks s) \<or> k = Task (frame_seq (tasks s ! i)) Completed \<and> i < length (tasks s)"
    by (cases "i < length (tasks s)")
       (auto simp: list_update_beyond dest: set_update_subset_insert [THEN subsetD])
  then show "rate_ok (complete i (task_body C s)) (frame_seq k)"
    using tasks_invD(4) [OF assms, of k] tasks_invD(4) [OF assms, of "tasks s ! i"]
    by auto
qed



lemma step_CallE:
  assumes "step C (Call t req) sy = Some sy'"
  obtains "pcs sy t = Idle" "lores_stream (stage sy) = None" "sy' = sy"
  | st where "pcs sy t = Idle" "lores_stream (stage sy) = Some st"
      "sy' = set_pc t (WantFutureMutex req) sy"
  using assms by (cases "pcs sy t"; cases "lores_stream (stage sy)"; simp)

lemma step_AcquireE:
  assumes "step C (Acquire t) sy = Some sy'"
  obtains req where "pcs sy t = WantFutureMutex req" "future_mutex_holder sy = None"
    "sy' = set_pc t (InCritical req)
             (sy\<lparr>stage := emit [Lock future_mutex] (stage sy), future_mutex_holder := Some t\<rparr>)"
  using assms by (cases "pcs sy t"; simp split: if_splits)

lemma step_DecideE:
  assumes "step C (Decide t) sy = Some sy'"
  obtains req where "pcs sy t = InCritical req"
    "sy' = set_pc t (if launch_due (stage sy) (sequence req)
                     then Launching req else Unlocking req) sy"
  using assms by (cases "pcs sy t"; simp)

lemma step_LaunchE:
  assumes "step C (Launch t) sy = Some sy'"
  obtains req st where "pcs sy t = Launching req" "lores_stream (stage sy) = Some st"
    "sy' = set_pc t (Unlocking req) (sy\<lparr>stage := launch C st req (stage sy)\<rparr>)"
  using assms by (cases "pcs sy t"; cases "lores_stream (stage sy)"; simp)

lemma step_ReleaseE:
  assumes "step C (Release t) sy = Some sy'"
  obtains req where "pcs sy t = Unlocking req"
    "sy' = set_pc t (WantOutputMutex req)
             (sy\<lparr>stage := emit [Unlock future_mutex] (stage sy), future_mutex_holder := None\<rparr>)"
  using assms by (cases "pcs sy t"; simp)

lemma step_AttachE:
  assumes "step C (Attach t) sy = Some sy'"
  obtains req where "pcs sy t = WantOutputMutex req"
    "sy' = set_pc t Idle (sy\<lparr>stage := fst (attach C req (stage sy))\<rparr>)"
  using assms by (cases "pcs sy t"; simp)

lemma step_FinishE:
  assumes "step C (Finish i) sy = Some sy'"
  obtains "i < length (tasks (stage sy))" "status (tasks (stage sy) ! i) = Running"
    "sy' = sy\<lparr>stage := complete i (task_body C (stage sy))\<rparr>"
  using assms by (simp split: if_splits)

lemma step_StopCallE:
  assumes "step C StopCall sy = Some sy'"
  obtains "stop sy = NotStopping" "sy' = sy\<lparr>stop := Stop (stage sy)\<rparr>"
  using assms by (simp split: if_splits)

lemma step_StopReturnE:
  assumes "step C StopReturn sy = Some sy'"
  obtains h where "stop sy = StopWaiting h" "future_ready (stage sy) h" "sy' = sy\<lparr>stop := Stopped\<rparr>"
  using assms by (cases "stop sy"; simp split: if_splits)


lemma sched_inv_step:
  assumes inv: "sched_inv sy" and st: "step C a sy = Some sy'"
  shows "sched_inv sy'"
proof -
  have A: "\<And>t. holds_lock (pcs sy t) \<Longrightarrow> future_mutex_holder sy = Some t"
    and B: "\<And>t req. pcs sy t = Launching req \<Longrightarrow> launch_due (stage sy) (sequence req)"
    and T: "tasks_inv (stage sy)"
    using inv by (simp_all add: sched_inv_def)
  show ?thesis
  proof (cases a)
    case (Call t req)
    from st [unfolded Call] show ?thesis
    proof (cases rule: step_CallE)
      case 1
      then show ?thesis using inv by simp
    next
      case (2 st)
      then show ?thesis using A B T by (auto simp: sched_inv_def holds_lock_def)
    qed
  next
    case (Acquire t)
    from st [unfolded Acquire] obtain req where p: "pcs sy t = WantFutureMutex req"
      and h: "future_mutex_holder sy = None"
      and s': "sy' = set_pc t (InCritical req)
             (sy\<lparr>stage := emit [Lock future_mutex] (stage sy), future_mutex_holder := Some t\<rparr>)"
      by (rule step_AcquireE)
    have nolock: "\<not> holds_lock (pcs sy u)" for u using A [of u] h by auto
    have noL: "pcs sy u \<noteq> Launching r" for u r
      using nolock [of u] by (auto simp: holds_lock_def)
    have "tasks_inv (emit [Lock future_mutex] (stage sy))"
      using T by (simp add: tasks_inv_cong [of "emit [Lock future_mutex] (stage sy)" "stage sy"])
    then show ?thesis unfolding s' sched_inv_def using nolock noL by auto
  next
    case (Decide t)
    from st [unfolded Decide] obtain req where p: "pcs sy t = InCritical req"
      and s': "sy' = set_pc t (if launch_due (stage sy) (sequence req)
                     then Launching req else Unlocking req) sy"
      by (rule step_DecideE)
    have ht: "future_mutex_holder sy = Some t" using A [of t] p by (simp add: holds_lock_def)
    show ?thesis unfolding s' sched_inv_def using A B T ht
      by (auto simp: holds_lock_def)
  next
    case (Launch t)
    from st [unfolded Launch] obtain req st where p: "pcs sy t = Launching req"
      and l: "lores_stream (stage sy) = Some st"
      and s': "sy' = set_pc t (Unlocking req) (sy\<lparr>stage := launch C st req (stage sy)\<rparr>)"
      by (rule step_LaunchE)
    have ht: "future_mutex_holder sy = Some t" using A [of t] p by (simp add: holds_lock_def)
    have due: "launch_due (stage sy) (sequence req)" using B p by simp
    have other: "u = t" if "pcs sy u = Launching r" for u r
      using A [of u] ht that by (simp add: holds_lock_def)
    have "tasks_inv (launch C st req (stage sy))" using T due by (rule tasks_inv_launch)
    then show ?thesis unfolding s' sched_inv_def using A ht other
      by (auto simp: holds_lock_def)
  next
    case (Release t)
    from st [unfolded Release] obtain req where p: "pcs sy t = Unlocking req"
      and s': "sy' = set_pc t (WantOutputMutex req)
             (sy\<lparr>stage := emit [Unlock future_mutex] (stage sy), future_mutex_holder := None\<rparr>)"
      by (rule step_ReleaseE)
    have ht: "future_mutex_holder sy = Some t" using A [of t] p by (simp add: holds_lock_def)
    have only: "u = t" if "holds_lock (pcs sy u)" for u using A [of u] ht that by simp
    have noL: "pcs sy u \<noteq> Launching r" if "u \<noteq> t" for u r
      using only [of u] that by (auto simp: holds_lock_def)
    have "tasks_inv (emit [Unlock future_mutex] (stage sy))"
      using T by (simp add: tasks_inv_cong [of "emit [Unlock future_mutex] (stage sy)" "stage sy"])
    then show ?thesis unfolding s' sched_inv_def using only noL
      by (auto simp: holds_lock_def)
  next
    case (Attach t)
    from st [unfolded Attach] obtain req where p: "pcs sy t = WantOutputMutex req"
      and s': "sy' = set_pc t Idle (sy\<lparr>stage := fst (attach C req (stage sy))\<rparr>)"
      by (rule step_AttachE)
    have ti: "tasks_inv (fst (attach C req (stage sy)))"
      using T by (simp add: tasks_inv_cong [of "fst (attach C req (stage sy))" "stage sy"])
    have ld: "\<And>sq. launch_due (fst (attach C req (stage sy))) sq = launch_due (stage sy) sq"
      by (rule launch_due_same) simp_all
    show ?thesis unfolding s' sched_inv_def using A B ti ld
      by (auto simp: holds_lock_def)
  next
    case (Finish i)
    from st [unfolded Finish] have s': "sy' = sy\<lparr>stage := complete i (task_body C (stage sy))\<rparr>"
      by (rule step_FinishE)
    have ti: "tasks_inv (complete i (task_body C (stage sy)))"
      using T by (rule tasks_inv_complete)
    have ld: "\<And>sq. launch_due (stage sy) sq \<Longrightarrow> launch_due (complete i (task_body C (stage sy))) sq"
      by (erule launch_due_cong [rotated 3]) (simp_all add: future_ready_complete)
    show ?thesis unfolding s' sched_inv_def using A B ti ld by auto
  next
    case StopCall
    from st [unfolded StopCall] show ?thesis
      by (rule step_StopCallE) (use inv in \<open>simp add: sched_inv_def\<close>)
  next
    case StopReturn
    from st [unfolded StopReturn] show ?thesis
      by (rule step_StopReturnE) (use inv in \<open>simp add: sched_inv_def\<close>)
  qed
qed

lemma sched_inv_run: "sched_inv sy \<Longrightarrow> run C acts sy = Some sy' \<Longrightarrow> sched_inv sy'"
proof (induction acts arbitrary: sy)
  case Nil
  then show ?case by simp
next
  case (Cons a acts)
  then show ?case by (auto split: option.splits dest: sched_inv_step)
qed


lemma running_subset:
  assumes "tasks_inv s"
  shows "{i. i < length (tasks s) \<and> status (tasks s ! i) = Running} \<subseteq> set_option (future s)"
  using tasks_invD(1) [OF assms] by auto

lemma at_most_one_running:
  assumes "tasks_inv s"
  shows "length (running_tasks s) \<le> 1"
proof -
  have "length (running_tasks s) = card {i. i < length (tasks s) \<and> status (tasks s ! i) = Running}"
    by (simp add: running_tasks_def length_filter_conv_card)
  also have "\<dots> \<le> card (set_option (future s))"
    by (rule card_mono [OF _ running_subset [OF assms]]) simp
  also have "\<dots> \<le> 1" by (cases "future s") simp_all
  finally show ?thesis .
qed

lemma none_running_when_due:
  assumes "tasks_inv s" and "launch_due s sq"
  shows "running_tasks s = []"
proof -
  have "status k \<noteq> Running" if "k \<in> set (tasks s)" for k
  proof
    assume r: "status k = Running"
    from that obtain i where i: "i < length (tasks s)" "tasks s ! i = k"
      by (auto simp: in_set_conv_nth)
    then have "future s = Some i" using r tasks_invD(1) [OF assms(1), of i] by simp
    then have "future_ready s i" using assms(2) by (simp add: launch_due_def)
    then show False using r i by (simp add: future_ready_def)
  qed
  then show ?thesis by (simp add: running_tasks_def filter_empty_conv)
qed

lemma running_tasks_launch:
  "running_tasks s = [] \<Longrightarrow> running_tasks (launch C st req s) = [Task (sequence req) Running]"
  by (simp add: running_tasks_def)

lemma step_keeps:
  assumes "step C a sy = Some sy'"
  shows "config (stage sy') = config (stage sy)"
    and "lores_stream (stage sy') = lores_stream (stage sy)"
    and "\<not> is_launch a \<Longrightarrow> length (tasks (stage sy')) = length (tasks (stage sy))"
    and "\<not> is_launch a \<Longrightarrow> future (stage sy') = future (stage sy)"
proof -
  have "config (stage sy') = config (stage sy) \<and> lores_stream (stage sy') = lores_stream (stage sy)
      \<and> (\<not> is_launch a \<longrightarrow> length (tasks (stage sy')) = length (tasks (stage sy))
            \<and> future (stage sy') = future (stage sy))"
  proof (cases a)
    case (Call t req)
    from assms [unfolded Call] show ?thesis by (rule step_CallE) simp_all
  next
    case (Acquire t)
    from assms [unfolded Acquire] show ?thesis by (rule step_AcquireE) simp
  next
    case (Decide t)
    from assms [unfolded Decide] show ?thesis by (rule step_DecideE) simp
  next
    case (Launch t)
    from assms [unfolded Launch] show ?thesis
      by (rule step_LaunchE) (simp add: Launch is_launch_def)
  next
    case (Release t)
    from assms [unfolded Release] show ?thesis by (rule step_ReleaseE) simp
  next
    case (Attach t)
    from assms [unfolded Attach] show ?thesis by (rule step_AttachE) simp
  next
    case (Finish i)
    from assms [unfolded Finish] show ?thesis by (rule step_FinishE) simp
  next
    case StopCall
    from assms [unfolded StopCall] show ?thesis by (rule step_StopCallE) simp
  next
    case StopReturn
    from assms [unfolded StopReturn] show ?thesis by (rule step_StopReturnE) simp
  qed
  then show "config (stage sy') = config (stage sy)"
    and "lores_stream (stage sy') = lores_stream (stage sy)"
    and "\<not> is_launch a \<Longrightarrow> length (tasks (stage sy')) = length (tasks (stage sy))"
    and "\<not> is_launch a \<Longrightarrow> future (stage sy') = future (stage sy)"
    by simp_all
qed

lemma run_config: "run C acts sy = Some sy' \<Longrightarrow> config (stage sy') = config (stage sy)"
proof (induction acts arbitrary: sy)
  case Nil
  then show ?case by simp
next
  case (Cons a acts)
  then show ?case by (auto split: option.splits dest: step_keeps(1))
qed

lemma reachable_inv:
  assumes "future s0 = None" and "tasks s0 = []" and "run C acts (boot s0) = Some sy"
  shows "sched_inv sy" and "config (stage sy) = config s0"
  using sched_inv_run [OF sched_inv_boot [OF assms(1,2)] assms(3)] run_config [OF assms(3)]
  by (simp_all add: boot_def)

lemma launch_step_facts:
  assumes inv: "sched_inv sy" and st: "step C a sy = Some sy'"
    and len: "length (tasks (stage sy')) \<noteq> length (tasks (stage sy))"
  shows "\<exists>t req. a = Launch t \<and> pcs sy t = Launching req \<and> future_mutex_holder sy = Some t
           \<and> launch_due (stage sy) (sequence req)
           \<and> tasks (stage sy') = tasks (stage sy) @ [Task (sequence req) Running]"
proof -
  have "is_launch a" using step_keeps(3) [OF st] len by blast
  then obtain t where a: "a = Launch t" by (cases a) (simp_all add: is_launch_def)
  from st [unfolded a] obtain req st where p: "pcs sy t = Launching req"
    and s': "sy' = set_pc t (Unlocking req) (sy\<lparr>stage := launch C st req (stage sy)\<rparr>)"
    by (rule step_LaunchE)
  have "future_mutex_holder sy = Some t" "launch_due (stage sy) (sequence req)"
    using inv p by (simp_all add: sched_inv_def holds_lock_def)
  then show ?thesis using a p s' by simp
qed

subsection \<open>At most one inference task\<close>

text \<open>
  C1. In every state that any schedule of frame threads, tasks and \<open>Stop\<close> reaches from a stage
  without tasks, at most one task is running. A step that adds a task is the \<open>Launch\<close> of the
  thread that holds \<^verbatim>\<open>future_mutex_\<close>, taken when \<open>future\<close> is empty or its task has completed
  and no task is running, and it leaves exactly one task running. A thread that evaluates the
  condition while the task of \<open>future\<close> still runs goes on to release the lock without
  launching and without changing the stage.
\<close>

theorem at_most_one_inference_task:
  assumes "future s0 = None" and "tasks s0 = []" and "run C acts (boot s0) = Some sy"
  shows "length (running_tasks (stage sy)) \<le> 1
       \<and> (\<forall>a sy'. step C a sy = Some sy'
              \<and> length (tasks (stage sy')) \<noteq> length (tasks (stage sy)) \<longrightarrow>
            (\<exists>t. a = Launch t \<and> future_mutex_holder sy = Some t)
            \<and> (future (stage sy) = None
                 \<or> (\<exists>h. future (stage sy) = Some h \<and> future_ready (stage sy) h))
            \<and> running_tasks (stage sy) = []
            \<and> length (running_tasks (stage sy')) = 1)
       \<and> (\<forall>t req h. pcs sy t = InCritical req \<and> future (stage sy) = Some h
              \<and> \<not> future_ready (stage sy) h \<longrightarrow>
            (\<exists>sy'. step C (Decide t) sy = Some sy' \<and> pcs sy' t = Unlocking req
                    \<and> stage sy' = stage sy))"
proof -
  have inv: "sched_inv sy" using assms by (rule reachable_inv)
  then have T: "tasks_inv (stage sy)" by (simp add: sched_inv_def)
  have one: "length (running_tasks (stage sy)) \<le> 1" using T by (rule at_most_one_running)
  have launch: "(\<exists>t. a = Launch t \<and> future_mutex_holder sy = Some t)
            \<and> (future (stage sy) = None
                 \<or> (\<exists>h. future (stage sy) = Some h \<and> future_ready (stage sy) h))
            \<and> running_tasks (stage sy) = []
            \<and> length (running_tasks (stage sy')) = 1"
    if "step C a sy = Some sy'" "length (tasks (stage sy')) \<noteq> length (tasks (stage sy))"
    for a sy'
  proof -
    from launch_step_facts [OF inv that] obtain t req where a: "a = Launch t"
      and "pcs sy t = Launching req"
      and h: "future_mutex_holder sy = Some t" and due: "launch_due (stage sy) (sequence req)"
      and ts: "tasks (stage sy') = tasks (stage sy) @ [Task (sequence req) Running]"
      by blast
    have none: "running_tasks (stage sy) = []" using T due by (rule none_running_when_due)
    have slot: "future (stage sy) = None
        \<or> (\<exists>h. future (stage sy) = Some h \<and> future_ready (stage sy) h)"
      using due by (cases "future (stage sy)") (simp_all add: launch_due_def)
    have "running_tasks (stage sy') = [Task (sequence req) Running]"
      using none ts by (simp add: running_tasks_def)
    then show ?thesis using a h slot none by simp
  qed
  have skip: "\<exists>sy'. step C (Decide t) sy = Some sy' \<and> pcs sy' t = Unlocking req
                    \<and> stage sy' = stage sy"
    if "pcs sy t = InCritical req" "future (stage sy) = Some h" "\<not> future_ready (stage sy) h"
    for t req h
    using that by (simp add: launch_due_def)
  show ?thesis using one launch skip by blast
qed

lemma demo_stage_fresh: "future demo_stage = None" "tasks demo_stage = []"
  "lores_stream demo_stage = Some 1" "refresh_rate (config demo_stage) = 5"
  by (simp_all add: demo_stage_def)

lemma demo_run:
  "\<exists>sy. run demo_collab demo_schedule (boot demo_stage) = Some sy
     \<and> pcs sy 1 = InCritical (demo_request 5) \<and> future (stage sy) = Some 0
     \<and> tasks (stage sy) = [Task 0 Running]"
  by (simp add: demo_schedule_def boot_def set_pc_def launch_due_def demo_stage_fresh
      demo_request_def)

theorem at_most_one_inference_task_witness:
  "\<exists>sy sy'. run demo_collab demo_schedule (boot demo_stage) = Some sy
     \<and> length (running_tasks (stage sy)) \<le> 1
     \<and> step demo_collab (Decide 1) sy = Some sy' \<and> pcs sy' 1 = Unlocking (demo_request 5)
     \<and> stage sy' = stage sy"
proof -
  from demo_run obtain sy where r: "run demo_collab demo_schedule (boot demo_stage) = Some sy"
    and p: "pcs sy 1 = InCritical (demo_request 5)" and f: "future (stage sy) = Some 0"
    and t: "tasks (stage sy) = [Task 0 Running]" by blast
  have n: "\<not> future_ready (stage sy) 0" using t by (simp add: future_ready_def)
  note main = at_most_one_inference_task [OF demo_stage_fresh(1,2) r]
  from main have one: "length (running_tasks (stage sy)) \<le> 1" by blast
  from main p f n obtain sy' where "step demo_collab (Decide 1) sy = Some sy'"
    "pcs sy' 1 = Unlocking (demo_request 5)" "stage sy' = stage sy" by blast
  then show ?thesis using r one by blast
qed


subsection \<open>When \<open>Process\<close> launches\<close>

lemma Process_enabled:
  assumes "lores_stream s = Some st"
  shows "fst (Process C s req) = False"
    and "tasks (fst (snd (Process C s req)))
           = (if launch_due s (sequence req) then tasks s @ [Task (sequence req) Running]
              else tasks s)"
    and "trace (fst (snd (Process C s req)))
           = trace s @ [Lock future_mutex]
             @ (if launch_due s (sequence req) then [AsyncLaunch (sequence req)] else [])
             @ [Unlock future_mutex, Lock output_mutex, CallApplyResults (sequence req),
                Unlock output_mutex]"
    and "results (fst (snd (Process C s req))) = results s"
    and "snd (snd (Process C s req)) = applyResults C (results s) req"
  using assms by (simp_all add: Process_def Let_def case_prod_unfold)

lemma mod_word_dvd:
  assumes "0 < r" and "r < 2 ^ 32"
  shows "((sq :: 32 word) mod word_of_int r = 0) = (r dvd uint sq)"
proof -
  have u: "uint (word_of_int r :: 32 word) = r"
    using assms by (simp add: uint_word_of_int)
  have "(sq mod word_of_int r = 0) = (uint (sq mod (word_of_int r :: 32 word)) = 0)"
    by (simp add: uint_0_iff)
  also have "\<dots> = (uint sq mod r = 0)" by (simp add: uint_mod_distrib u)
  also have "\<dots> = (r dvd uint sq)" by (simp add: dvd_eq_mod_eq_0)
  finally show ?thesis .
qed

lemma launch_due_iff:
  "launch_due s sq \<longleftrightarrow>
     refresh_rate (config s) \<noteq> 0 \<and> sq mod word_of_int (refresh_rate (config s)) = 0
     \<and> (future s = None \<or> (\<exists>h. future s = Some h \<and> future_ready s h))"
  by (cases "future s") (simp_all add: launch_due_def)

lemma never_launches_when_disabled_rate:
  assumes "refresh_rate (config s0) = 0" and "future s0 = None" and "tasks s0 = []"
    and "run C acts (boot s0) = Some sy"
  shows "tasks (stage sy) = []"
proof (rule ccontr)
  assume "tasks (stage sy) \<noteq> []"
  then obtain k where k: "k \<in> set (tasks (stage sy))" by (cases "tasks (stage sy)") auto
  have "tasks_inv (stage sy)" "config (stage sy) = config s0"
    using reachable_inv [OF assms(2,3,4)] by (simp_all add: sched_inv_def)
  then have "refresh_rate (config s0) \<noteq> 0"
    using tasks_invD(4) [of "stage sy" k] k by (simp add: rate_ok_def)
  then show False using assms(1) by simp
qed

text \<open>
  C2, amended. A call of \<open>Process\<close> launches a task on its frame if and only if the
  low-resolution path is enabled (\<open>lores_stream\<close> is set), \<open>refresh_rate\<close> is not zero, the
  remainder \<^verbatim>\<open>sequence % refresh_rate\<close> is zero, and \<open>future\<close> is empty or its task has
  completed; otherwise it launches nothing. For a positive \<open>refresh_rate\<close> the remainder is
  zero exactly when the sequence number is a multiple of \<open>refresh_rate\<close>. With
  \<open>refresh_rate = 0\<close> no schedule ever launches a task.
\<close>

theorem Process_launch_condition:
  "(tasks (fst (snd (Process C s req))) = tasks s @ [Task (sequence req) Running]
      \<longleftrightarrow> lores_stream s \<noteq> None
          \<and> refresh_rate (config s) \<noteq> 0
          \<and> sequence req mod word_of_int (refresh_rate (config s)) = 0
          \<and> (future s = None \<or> (\<exists>h. future s = Some h \<and> future_ready s h)))
   \<and> (tasks (fst (snd (Process C s req))) = tasks s @ [Task (sequence req) Running]
        \<or> tasks (fst (snd (Process C s req))) = tasks s)
   \<and> (0 < refresh_rate (config s) \<and> refresh_rate (config s) < 2 ^ 31 \<longrightarrow>
        (sequence req mod word_of_int (refresh_rate (config s)) = 0
           \<longleftrightarrow> refresh_rate (config s) dvd uint (sequence req)))
   \<and> (\<forall>acts sy. refresh_rate (config s) = 0 \<and> future s = None \<and> tasks s = []
          \<and> run C acts (boot s) = Some sy \<longrightarrow> tasks (stage sy) = [])"
proof -
  have a: "tasks (fst (snd (Process C s req))) = tasks s @ [Task (sequence req) Running]
           \<longleftrightarrow> lores_stream s \<noteq> None \<and> launch_due s (sequence req)"
    by (cases "lores_stream s") (simp_all add: Process_disabled Process_enabled(2))
  have b: "tasks (fst (snd (Process C s req))) = tasks s @ [Task (sequence req) Running]
            \<or> tasks (fst (snd (Process C s req))) = tasks s"
    by (cases "lores_stream s") (simp_all add: Process_disabled Process_enabled(2))
  have c: "0 < refresh_rate (config s) \<and> refresh_rate (config s) < 2 ^ 31 \<longrightarrow>
            (sequence req mod word_of_int (refresh_rate (config s)) = 0
               \<longleftrightarrow> refresh_rate (config s) dvd uint (sequence req))"
    using mod_word_dvd [of "refresh_rate (config s)" "sequence req"] by simp
  have d: "\<forall>acts sy. refresh_rate (config s) = 0 \<and> future s = None \<and> tasks s = []
              \<and> run C acts (boot s) = Some sy \<longrightarrow> tasks (stage sy) = []"
    using never_launches_when_disabled_rate by blast
  show ?thesis using a [unfolded launch_due_iff] b c d by blast
qed

lemma demo_disabled_fields:
  "lores_stream demo_disabled = None" "refresh_rate (config demo_disabled) = 5"
  "future demo_disabled = None" "tasks demo_disabled = []" "results demo_disabled = 7"
  "trace demo_disabled = []"
  by (simp_all add: demo_disabled_def demo_stage_def)

lemma demo_ready_fields:
  "lores_stream demo_ready = Some 1" "refresh_rate (config demo_ready) = 5"
  "future demo_ready = Some 0" "tasks demo_ready = [Task 0 Completed]"
  by (simp_all add: demo_ready_def demo_stage_def)

theorem Process_launch_condition_witness:
  "tasks (fst (snd (Process demo_collab demo_ready (demo_request 10))))
     = [Task 0 Completed, Task 10 Running]
   \<and> tasks (fst (snd (Process demo_collab demo_ready (demo_request 3)))) = [Task 0 Completed]"
proof -
  have seq: "sequence (demo_request 10 :: nat completed_request) = 10"
    "sequence (demo_request 3 :: nat completed_request) = 3"
    by (simp_all add: demo_request_def)
  have r: "future_ready demo_ready 0" by (simp add: future_ready_def demo_ready_fields)
  have m: "(10 :: 32 word) mod word_of_int 5 = 0" "(3 :: 32 word) mod word_of_int 5 \<noteq> 0"
    by simp_all
  show ?thesis
    using Process_launch_condition [of demo_collab demo_ready "demo_request 10"]
      Process_launch_condition [of demo_collab demo_ready "demo_request 3"]
      r m
    by (auto simp add: demo_ready_fields seq)
qed

text \<open>
  C2 as stated fails when the low-resolution path is disabled: \<open>refresh_rate\<close> is 5, frame 0
  is a multiple of it and no task was ever launched, yet \<open>Process\<close> launches nothing.
\<close>

theorem Process_disabled_path_launches_nothing:
  "refresh_rate (config demo_disabled) \<noteq> 0
   \<and> refresh_rate (config demo_disabled) dvd uint (sequence (demo_request 0 :: nat completed_request))
   \<and> future demo_disabled = None
   \<and> tasks (fst (snd (Process demo_collab demo_disabled (demo_request 0)))) = tasks demo_disabled
   \<and> tasks demo_disabled = []"
  by (simp add: Process_disabled demo_disabled_fields demo_request_def)

subsection \<open>Attaching the results\<close>

text \<open>
  C7, amended. On every call of \<open>Process\<close> on a stage whose low-resolution path is enabled,
  whether or not the call launches a task, \<^verbatim>\<open>applyResults\<close> is called on the request between
  locking and unlocking \<^verbatim>\<open>output_mutex_\<close>, as the last action of the call; the request comes
  back as \<^verbatim>\<open>applyResults\<close> leaves it, given the results current at the call, which \<open>Process\<close>
  itself does not change. On a stage whose low-resolution path is disabled, \<open>Process\<close> returns
  \<open>False\<close> with the stage and the request untouched.
\<close>

theorem Process_attaches_results_when_enabled:
  "(lores_stream s \<noteq> None \<longrightarrow>
      fst (Process C s req) = False
      \<and> snd (snd (Process C s req)) = applyResults C (results s) req
      \<and> results (fst (snd (Process C s req))) = results s
      \<and> (\<exists>mid. (mid = [] \<or> mid = [AsyncLaunch (sequence req)])
            \<and> trace (fst (snd (Process C s req)))
                = trace s @ [Lock future_mutex] @ mid
                  @ [Unlock future_mutex, Lock output_mutex, CallApplyResults (sequence req),
                     Unlock output_mutex]))
   \<and> (lores_stream s = None \<longrightarrow> Process C s req = (False, s, req))"
proof (cases "lores_stream s")
  case None
  then show ?thesis by (simp add: Process_disabled)
next
  case (Some st)
  then show ?thesis using Process_enabled [OF Some, of C req] by auto
qed

theorem Process_attaches_results_when_enabled_witness:
  "annotation (snd (snd (Process demo_collab (demo_stage\<lparr>results := 7\<rparr>) (demo_request 3)))) = 7"
proof -
  have l: "lores_stream (demo_stage\<lparr>results := 7\<rparr>) = Some 1" by (simp add: demo_stage_def)
  show ?thesis
    using Process_attaches_results_when_enabled
      [of "demo_stage\<lparr>results := 7\<rparr>" demo_collab "demo_request 3"] l
    by (simp add: demo_collab_def)
qed

text \<open>
  C7 as stated fails when the low-resolution path is disabled: \<open>Process\<close> returns before the
  \<^verbatim>\<open>applyResults\<close> statement, so the request is not the one \<^verbatim>\<open>applyResults\<close> would produce and
  the trace stays empty.
\<close>

theorem Process_disabled_path_skips_applyResults:
  "snd (snd (Process demo_collab demo_disabled (demo_request 0)))
     \<noteq> applyResults demo_collab (results demo_disabled) (demo_request 0)
   \<and> trace (fst (snd (Process demo_collab demo_disabled (demo_request 0)))) = []"
  by (simp add: Process_disabled demo_disabled_fields demo_request_def demo_collab_def)


subsection \<open>The rate gate and the readiness test\<close>

lemma reachable_tasks_rate:
  assumes "future s0 = None" and "tasks s0 = []" and "run C acts (boot s0) = Some sy"
    and "k \<in> set (tasks (stage sy))"
  shows "refresh_rate (config s0) \<noteq> 0"
    and "frame_seq k mod word_of_int (refresh_rate (config s0)) = 0"
proof -
  have "tasks_inv (stage sy)" "config (stage sy) = config s0"
    using reachable_inv [OF assms(1,2,3)] by (simp_all add: sched_inv_def)
  then have "rate_ok (stage sy) (frame_seq k)" "config (stage sy) = config s0"
    using tasks_invD(4) assms(4) by blast+
  then show "refresh_rate (config s0) \<noteq> 0"
    and "frame_seq k mod word_of_int (refresh_rate (config s0)) = 0"
    by (simp_all add: rate_ok_def)
qed

text \<open>
  C3, amended. In every reachable state, every task was launched on a frame whose remainder
  \<^verbatim>\<open>sequence % refresh_rate\<close> is zero (for a positive \<open>refresh_rate\<close>: on a multiple of it),
  and so is every task that a further step adds: the test "the previous task is ready" is an
  alternative to "no task yet" only and is conjoined with the rate gate, so a frame off the
  rate boundary never launches, whatever the state of the previous task.
\<close>

theorem launches_only_on_rate_boundary:
  assumes "future s0 = None" and "tasks s0 = []" and "run C acts (boot s0) = Some sy"
  shows "(\<forall>k \<in> set (tasks (stage sy)).
            refresh_rate (config s0) \<noteq> 0
            \<and> frame_seq k mod word_of_int (refresh_rate (config s0)) = 0
            \<and> (0 < refresh_rate (config s0) \<and> refresh_rate (config s0) < 2 ^ 31 \<longrightarrow>
                 refresh_rate (config s0) dvd uint (frame_seq k)))
       \<and> (\<forall>a sy'. step C a sy = Some sy'
              \<and> length (tasks (stage sy')) \<noteq> length (tasks (stage sy)) \<longrightarrow>
            (\<exists>sq. tasks (stage sy') = tasks (stage sy) @ [Task sq Running]
                   \<and> sq mod word_of_int (refresh_rate (config s0)) = 0))
       \<and> (\<forall>sq. sq mod word_of_int (refresh_rate (config (stage sy))) \<noteq> 0 \<longrightarrow>
             \<not> launch_due (stage sy) sq)"
proof -
  have inv: "sched_inv sy" and cfg: "config (stage sy) = config s0"
    using assms by (rule reachable_inv)+
  have a: "refresh_rate (config s0) \<noteq> 0
            \<and> frame_seq k mod word_of_int (refresh_rate (config s0)) = 0
            \<and> (0 < refresh_rate (config s0) \<and> refresh_rate (config s0) < 2 ^ 31 \<longrightarrow>
                 refresh_rate (config s0) dvd uint (frame_seq k))"
    if "k \<in> set (tasks (stage sy))" for k
    using reachable_tasks_rate [OF assms that]
      mod_word_dvd [of "refresh_rate (config s0)" "frame_seq k"] by simp
  have b: "\<exists>sq. tasks (stage sy') = tasks (stage sy) @ [Task sq Running]
                   \<and> sq mod word_of_int (refresh_rate (config s0)) = 0"
    if "step C a sy = Some sy'" "length (tasks (stage sy')) \<noteq> length (tasks (stage sy))"
    for a sy'
  proof -
    from launch_step_facts [OF inv that] obtain t req where
      "pcs sy t = Launching req" "launch_due (stage sy) (sequence req)"
      "tasks (stage sy') = tasks (stage sy) @ [Task (sequence req) Running]" by blast
    then show ?thesis using cfg by (auto simp: launch_due_def)
  qed
  have c: "\<not> launch_due (stage sy) sq"
    if "sq mod word_of_int (refresh_rate (config (stage sy))) \<noteq> 0" for sq
    using that by (simp add: launch_due_def)
  show ?thesis using a b c by blast
qed

theorem launches_only_on_rate_boundary_witness:
  "\<exists>sy. run demo_collab demo_schedule (boot demo_stage) = Some sy
     \<and> tasks (stage sy) = [Task 0 Running] \<and> refresh_rate (config demo_stage) dvd uint (0 :: 32 word)"
proof -
  from demo_run obtain sy where r: "run demo_collab demo_schedule (boot demo_stage) = Some sy"
    and t: "tasks (stage sy) = [Task 0 Running]" by blast
  have "Task 0 Running \<in> set (tasks (stage sy))" using t by simp
  then have "refresh_rate (config demo_stage) dvd uint (frame_seq (Task 0 Running))"
    using launches_only_on_rate_boundary [OF demo_stage_fresh(1,2) r]
    by (simp add: demo_stage_fresh)
  then show ?thesis using r t by simp
qed

text \<open>
  C3 as stated fails: with \<open>refresh_rate = 5\<close> and the previous task completed, \<open>Process\<close> on
  frame 3 launches nothing; and no schedule from a stage without tasks reaches a state with a
  task launched on a frame whose remainder is not zero (for a positive \<open>refresh_rate\<close>: on a
  frame that is not a multiple of it).
\<close>

theorem no_launch_off_the_rate_boundary:
  "tasks (fst (snd (Process demo_collab demo_ready (demo_request 3)))) = tasks demo_ready
   \<and> \<not> (\<exists>(C :: (nat, nat, nat) collab) s0 acts sy k.
          future s0 = None \<and> tasks s0 = [] \<and> run C acts (boot s0) = Some sy
          \<and> k \<in> set (tasks (stage sy))
          \<and> frame_seq k mod word_of_int (refresh_rate (config s0)) \<noteq> 0)
   \<and> \<not> (\<exists>(C :: (nat, nat, nat) collab) s0 acts sy k.
          future s0 = None \<and> tasks s0 = [] \<and> run C acts (boot s0) = Some sy
          \<and> k \<in> set (tasks (stage sy))
          \<and> 0 < refresh_rate (config s0) \<and> refresh_rate (config s0) < 2 ^ 31
          \<and> \<not> refresh_rate (config s0) dvd uint (frame_seq k))"
proof -
  have a: "tasks (fst (snd (Process demo_collab demo_ready (demo_request 3)))) = tasks demo_ready"
    by (simp add: Process_enabled(2) [OF demo_ready_fields(1)] launch_due_def demo_ready_fields
        demo_request_def)
  have b: "frame_seq k mod word_of_int (refresh_rate (config s0)) = 0"
    if "future s0 = None" "tasks s0 = []" "run C acts (boot s0) = Some sy"
      "k \<in> set (tasks (stage sy))"
    for C :: "(nat, nat, nat) collab" and s0 acts sy k
    using that by (rule reachable_tasks_rate(2))
  have c: "refresh_rate (config s0) dvd uint (frame_seq k)"
    if "future s0 = None" "tasks s0 = []" "run C acts (boot s0) = Some sy"
      "k \<in> set (tasks (stage sy))" "0 < refresh_rate (config s0)"
      "refresh_rate (config s0) < 2 ^ 31"
    for C :: "(nat, nat, nat) collab" and s0 acts sy k
    using b [OF that(1-4)] mod_word_dvd [of "refresh_rate (config s0)" "frame_seq k"] that(5,6)
    by simp
  show ?thesis using a b c by blast
qed


subsection \<open>\<open>Stop\<close>\<close>













subsection \<open>Further properties\<close>

text \<open>
  X1. The constructor raises "Bad TFLite input dimensions" exactly when a dimension is not
  positive; the stage it builds otherwise has the given positive dimensions, no task and an
  empty \<open>future\<close>.
\<close>

theorem TfStage_checks_dimensions:
  "(w \<le> 0 \<or> h \<le> 0 \<longleftrightarrow>
      TfStage r0 w h = Inl (runtime_error ''TfStage: Bad TFLite input dimensions''))
   \<and> (\<forall>s. TfStage r0 w h = Inr s \<longrightarrow>
         tf_w s = w \<and> tf_h s = h \<and> 0 < tf_w s \<and> 0 < tf_h s \<and> future s = None \<and> tasks s = [])"
  by (auto simp: TfStage_def)

theorem TfStage_checks_dimensions_witness:
  "TfStage (0 :: nat) 0 224 = Inl (runtime_error ''TfStage: Bad TFLite input dimensions'')
   \<and> (\<exists>s. TfStage (0 :: nat) 224 224 = Inr s \<and> tf_w s = 224 \<and> tasks s = [])"
proof -
  have a: "TfStage (0 :: nat) 0 224 = Inl (runtime_error ''TfStage: Bad TFLite input dimensions'')"
    using TfStage_checks_dimensions [of 0 224 "0 :: nat"] by simp
  obtain s where s: "TfStage (0 :: nat) 224 224 = Inr s" by (simp add: TfStage_def)
  then have "tf_w s = 224 \<and> tasks s = []"
    using TfStage_checks_dimensions [of 224 224 "0 :: nat"] by blast
  then show ?thesis using a s by blast
qed

text \<open>
  X2. When \<^verbatim>\<open>Invoke()\<close> succeeds, \<open>runInference\<close> returns normally and the results are those
  that \<^verbatim>\<open>interpretOutputs\<close> computes from the outputs and the previous results, written between
  locking and unlocking \<^verbatim>\<open>output_mutex_\<close>.
\<close>

theorem runInference_success_publishes_results:
  assumes "Invoke C (input_tensor (fill_input_tensor C s)) = Some outputs"
  shows "fst (runInference C s) = Inr ()
       \<and> results (snd (runInference C s)) = interpretOutputs C outputs (results s)
       \<and> trace (snd (runInference C s))
           = trace s @ [CallInvoke, Lock output_mutex, CallInterpretOutputs, Unlock output_mutex]"
  using assms by (simp add: runInference_def Let_def emit_def)

theorem runInference_success_publishes_results_witness:
  "results (snd (runInference demo_collab (demo_stage\<lparr>results := 7\<rparr>))) = 8"
proof -
  have h: "Invoke demo_collab
      (input_tensor (fill_input_tensor demo_collab (demo_stage\<lparr>results := 7\<rparr>))) = Some 1"
    by (simp add: demo_collab_def)
  show ?thesis
    using runInference_success_publishes_results [OF h] by (simp add: demo_collab_def)
qed

text \<open>
  X3. If the low-resolution stream is at least as large as the model input in both
  dimensions, \<open>Configure\<close> keeps the low-resolution path enabled and records the dimensions and
  the stride of the stream, without the warning.
\<close>

theorem Configure_adequate_lores_keeps_path:
  assumes "LoresStream ap = Some st" and "StreamDimensions ap st = (w, h, stride)"
    and "tf_w s \<le> w" and "tf_h s \<le> h" and "Configure ap checkConfiguration s = (r, s')"
  shows "lores_stream s' = Some st \<and> lores_w s' = w \<and> lores_h s' = h \<and> lores_stride s' = stride
       \<and> tf_w s' = tf_w s \<and> tf_h s' = tf_h s
       \<and> (Cout ''TfStage: WARNING: Low resolution image too small'' \<notin> set (trace s)
            \<longrightarrow> Cout ''TfStage: WARNING: Low resolution image too small'' \<notin> set (trace s'))"
proof -
  let ?s1 = "configure_lores ap s"
  let ?s2 = "configure_main ap ?s1"
  have s': "s' = emit [CallCheckConfiguration] ?s2"
    using assms(5) by (auto simp: Configure_def Let_def)
  have l1: "lores_stream ?s1 = Some st \<and> lores_w ?s1 = w \<and> lores_h ?s1 = h
      \<and> lores_stride ?s1 = stride \<and> tf_w ?s1 = tf_w s \<and> tf_h ?s1 = tf_h s
      \<and> set (trace ?s1) \<subseteq> set (trace s) \<union> {CoutSize ''TfStage: Low resolution stream is '' w h}"
    using assms(1-4) by (cases "verbose (config s) = 0") (auto simp: configure_lores_def Let_def)
  have l2: "lores_stream ?s2 = lores_stream ?s1 \<and> lores_w ?s2 = lores_w ?s1
      \<and> lores_h ?s2 = lores_h ?s1 \<and> lores_stride ?s2 = lores_stride ?s1
      \<and> tf_w ?s2 = tf_w ?s1 \<and> tf_h ?s2 = tf_h ?s1
      \<and> Cout ''TfStage: WARNING: Low resolution image too small''
            \<notin> set (trace ?s2) - set (trace ?s1)"
    by (cases "verbose (config ?s1) = 0")
       (auto simp: configure_main_def Let_def split: option.splits prod.splits)
  show ?thesis unfolding s' using l1 l2 by auto
qed

theorem Configure_adequate_lores_keeps_path_witness:
  "lores_stream (snd (Configure (demo_app\<lparr>StreamDimensions := (\<lambda>st. (8, 6, 8))\<rparr>)
      (\<lambda>s. None) demo_stage)) = Some 1"
proof -
  have h: "LoresStream (demo_app\<lparr>StreamDimensions := (\<lambda>st. (8, 6, 8))\<rparr>) = Some 1"
    "StreamDimensions (demo_app\<lparr>StreamDimensions := (\<lambda>st. (8, 6, 8))\<rparr>) 1 = (8, 6, 8)"
    "tf_w demo_stage \<le> 8" "tf_h demo_stage \<le> 6"
    by (simp_all add: demo_app_def demo_stage_geometry)
  show ?thesis
    using Configure_adequate_lores_keeps_path [OF h surjective_pairing] by blast
qed

end
